theory Spec2Isabelle
  imports Complex_Main "HOL-Library.Sublist"
begin

section \<open>Python strings\<close>

text \<open>
  The program is \<^verbatim>\<open>chatbot_demo.py\<close>. A Python \<^verbatim>\<open>str\<close> is a sequence of Unicode code
  points, so a string is a list of natural numbers, one per code point. The literals of
  the source are ASCII and are written through \<open>str\<close>. The statements at module level
  (lines 7 to 15) set environment variables for the inference library and import it; they
  are outside this model, which starts at \<^verbatim>\<open>main\<close>.
\<close>

type_synonym pystr = "nat list"

definition str :: "string \<Rightarrow> pystr" where
  "str cs = map of_char cs"

text \<open>
  \<^verbatim>\<open>str.isspace\<close> on one code point, which is what \<^verbatim>\<open>str.strip()\<close> without argument
  removes: the characters of bidirectional class WS, B or S and of category Zs.
\<close>

definition isspace :: "nat \<Rightarrow> bool" where
  "isspace c =
     ((0x09 \<le> c \<and> c \<le> 0x0D) \<or> (0x1C \<le> c \<and> c \<le> 0x20) \<or> c = 0x85 \<or> c = 0xA0
      \<or> c = 0x1680 \<or> (0x2000 \<le> c \<and> c \<le> 0x200A) \<or> c = 0x2028 \<or> c = 0x2029
      \<or> c = 0x202F \<or> c = 0x205F \<or> c = 0x3000)"

definition str_lstrip :: "pystr \<Rightarrow> pystr" where
  "str_lstrip s = dropWhile isspace s"

definition str_rstrip :: "pystr \<Rightarrow> pystr" where
  "str_rstrip s = rev (dropWhile isspace (rev s))"

text \<open>\<^verbatim>\<open>s.strip()\<close>: leading and trailing whitespace removed.\<close>

definition str_strip :: "pystr \<Rightarrow> pystr" where
  "str_strip s = str_rstrip (str_lstrip s)"

text \<open>\<^verbatim>\<open>s.find(sub)\<close>: the lowest index at which \<open>sub\<close> occurs in \<open>s\<close>, if any.\<close>

fun str_find :: "'a list \<Rightarrow> 'a list \<Rightarrow> nat option" where
  "str_find sub [] = (if sub = [] then Some 0 else None)"
| "str_find sub (c # s) =
     (if prefix sub (c # s) then Some 0 else map_option Suc (str_find sub s))"

text \<open>\<^verbatim>\<open>sub in s\<close>.\<close>

definition str_contains :: "'a list \<Rightarrow> 'a list \<Rightarrow> bool" where
  "str_contains sub s = (str_find sub s \<noteq> None)"

text \<open>
  The exceptions the program can meet. \<open>Exception\<close> stands for any other subclass of
  \<^verbatim>\<open>Exception\<close> (with its message), \<open>BaseException\<close> for any other exception outside
  that class, such as \<^verbatim>\<open>SystemExit\<close>.
\<close>

datatype exn =
    EOFError
  | KeyboardInterrupt
  | ValueError
  | IndexError
  | KeyError
  | Exception pystr
  | BaseException pystr

text \<open>Whether \<^verbatim>\<open>except Exception\<close> catches the exception.\<close>

fun is_Exception :: "exn \<Rightarrow> bool" where
  "is_Exception KeyboardInterrupt = False"
| "is_Exception (BaseException m) = False"
| "is_Exception e = True"

text \<open>Sequencing of computations that may raise.\<close>

definition bind :: "exn + 'a \<Rightarrow> ('a \<Rightarrow> exn + 'b) \<Rightarrow> exn + 'b" where
  "bind m f = (case m of Inl e \<Rightarrow> Inl e | Inr x \<Rightarrow> f x)"

text \<open>
  \<^verbatim>\<open>s.split(sep)\<close>: the pieces of \<open>s\<close> between the successive occurrences of \<open>sep\<close>,
  found from the left. An empty separator raises \<^verbatim>\<open>ValueError\<close>.
\<close>

function str_split_loop :: "'a list \<Rightarrow> 'a list \<Rightarrow> 'a list list" where
  "str_split_loop sep s =
     (if sep = [] then [s]
      else case str_find sep s of
             None \<Rightarrow> [s]
           | Some i \<Rightarrow> take i s # str_split_loop sep (drop (i + length sep) s))"
  by pat_completeness auto

termination str_split_loop
proof (relation "measure (\<lambda>(sep, s). length s)")
  show "wf (measure (\<lambda>(sep, s). length s))" by simp
next
  fix sep s :: "'a list" and i
  assume sep: "sep \<noteq> []" and found: "str_find sep s = Some i"
  have "str_find sep t = Some k \<Longrightarrow> k + length sep \<le> length t" for t k
  proof (induction t arbitrary: k)
    case Nil
    then show ?case by (simp split: if_splits)
  next
    case (Cons c t)
    show ?case
    proof (cases "prefix sep (c # t)")
      case True
      with Cons.prems prefix_length_le[of sep "c # t"] show ?thesis by simp
    next
      case False
      with Cons.prems obtain j where "str_find sep t = Some j" "k = Suc j" by auto
      with Cons.IH show ?thesis by auto
    qed
  qed
  from this[OF found] sep
  show "((sep, drop (i + length sep) s), (sep, s)) \<in> measure (\<lambda>(sep, s). length s)"
    by (cases s) simp_all
qed

definition str_split :: "'a list \<Rightarrow> 'a list \<Rightarrow> exn + 'a list list" where
  "str_split sep s = (if sep = [] then Inl ValueError else Inr (str_split_loop sep s))"

text \<open>\<^verbatim>\<open>xs[i]\<close> for an index \<open>i \<ge> 0\<close>.\<close>

definition getitem :: "'a list \<Rightarrow> nat \<Rightarrow> exn + 'a" where
  "getitem xs i = (if i < length xs then Inr (xs ! i) else Inl IndexError)"

text \<open>\<^verbatim>\<open>sep.join(xs)\<close>.\<close>

fun str_join :: "'a list \<Rightarrow> 'a list list \<Rightarrow> 'a list" where
  "str_join sep [] = []"
| "str_join sep [x] = x"
| "str_join sep (x # y # ys) = x @ sep @ str_join sep (y # ys)"

section \<open>The response sanitizer\<close>

text \<open>
  Both loops treat the generated text in the same way (lines 44 to 50 of
  \<^verbatim>\<open>run_canned_demo\<close>, lines 103 to 109 of \<^verbatim>\<open>run_interactive_demo\<close>):
  \<^verbatim>\<open>
  response = outputs[0].outputs[0].text.strip()
  if "Human:" in response:
      response = response.split("Human:")[0].strip()
  if "\n\n" in response:
      response = response.split("\n\n")[0].strip()
  \<close>
\<close>

definition extract_response :: "pystr \<Rightarrow> pystr" where
  "extract_response text = str_strip text"

definition clean_up_response :: "pystr \<Rightarrow> exn + pystr" where
  "clean_up_response response =
     bind (if str_contains (str ''Human:'') response
           then bind (str_split (str ''Human:'') response)
                  (\<lambda>parts. bind (getitem parts 0) (\<lambda>part. Inr (str_strip part)))
           else Inr response)
       (\<lambda>response.
          if str_contains (str ''\<newline>\<newline>'') response
          then bind (str_split (str ''\<newline>\<newline>'') response)
                 (\<lambda>parts. bind (getitem parts 0) (\<lambda>part. Inr (str_strip part)))
          else Inr response)"

definition sanitize :: "pystr \<Rightarrow> exn + pystr" where
  "sanitize text = clean_up_response (extract_response text)"

section \<open>The conversation history and the prompt\<close>

text \<open>
  \<^verbatim>\<open>conversation_history\<close> is a list of lines. Both loops extend it with
  \<^verbatim>\<open>conversation_history.append(f"Human: {user_input}")\<close> (lines 35 and 94) and
  \<^verbatim>\<open>conversation_history.append(f"Assistant: {response}")\<close> (lines 53 and 112), and build
  the prompt with \<^verbatim>\<open>"\n".join(conversation_history) + "\nAssistant:"\<close> (lines 36 and 95).
\<close>

definition append_human :: "pystr list \<Rightarrow> pystr \<Rightarrow> pystr list" where
  "append_human conversation_history user_input =
     conversation_history @ [str ''Human: '' @ user_input]"

definition append_assistant :: "pystr list \<Rightarrow> pystr \<Rightarrow> pystr list" where
  "append_assistant conversation_history response =
     conversation_history @ [str ''Assistant: '' @ response]"

definition build_prompt :: "pystr list \<Rightarrow> pystr" where
  "build_prompt conversation_history =
     str_join (str ''\<newline>'') conversation_history @ str ''\<newline>Assistant:''"

text \<open>Lines 35 and 36, the same as lines 94 and 95: the new history and the prompt.\<close>

definition begin_turn :: "pystr list \<Rightarrow> pystr \<Rightarrow> pystr list \<times> pystr" where
  "begin_turn conversation_history user_input =
     (let conversation_history = append_human conversation_history user_input
      in (conversation_history, build_prompt conversation_history))"

section \<open>Input, output and the inference library\<close>

text \<open>
  What one call of \<^verbatim>\<open>input()\<close> meets on standard input: a line, or an exception. At the
  end of the input, \<^verbatim>\<open>input()\<close> raises \<^verbatim>\<open>EOFError\<close>.
\<close>

datatype input_ev = Line pystr | Raises exn

fun py_input :: "input_ev list \<Rightarrow> (exn + pystr) \<times> input_ev list" where
  "py_input [] = (Inl EOFError, [])"
| "py_input (Line s # rest) = (Inr s, rest)"
| "py_input (Raises e # rest) = (Inl e, rest)"

text \<open>The three prompts of \<^verbatim>\<open>input\<close> (lines 147, 198 and 76).\<close>

datatype prompt = Model_choice_prompt | Mode_choice_prompt | You_prompt

text \<open>
  One constructor for each \<^verbatim>\<open>print\<close> of the program, with the values it interpolates.
\<close>

datatype msg =
    Rule
  | Blank_then_rule
  | Rule_then_blank
  | Canned_title
  | You_line pystr
  | Thinking
  | Erase_thinking
  | Bot_line pystr
  | Canned_completed
  | Interactive_title
  | Commands_header
  | Commands_quit
  | Commands_clear
  | Goodbye_after_newline
  | Goodbye
  | Conversation_cleared
  | Select_model
  | Model_option pystr pystr
  | Defaulting_model
  | Invalid_model_choice pystr
  | Loading_model
  | Model_name pystr
  | Note_v1_engine
  | Note_stability
  | Failed_to_load exn
  | Hint_v1_engine
  | Hint_numa_fix
  | Model_loaded
  | Select_mode
  | Mode_option_canned
  | Mode_option_interactive
  | Defaulting_canned
  | Invalid_mode_choice pystr

text \<open>
  The texts, by line of the source (an emoji is written as its code point):
  \<^item> \<open>Rule\<close>: \<^verbatim>\<open>"=" * 70\<close> (60, 69, 140, 144, 191, 195);
    \<open>Blank_then_rule\<close>: \<^verbatim>\<open>"\n" + "=" * 70\<close> (19, 58, 64);
    \<open>Rule_then_blank\<close>: \<^verbatim>\<open>"=" * 70 + "\n"\<close> (21).
  \<^item> \<open>Canned_title\<close> (20), \<open>Canned_completed\<close> (59), \<open>Interactive_title\<close> (65),
    \<open>Commands_header\<close>, \<open>Commands_quit\<close>, \<open>Commands_clear\<close> (66 to 68).
  \<^item> \<open>You_line user_input\<close>: \<^verbatim>\<open>f"\n{U+1F9D1} You: {user_input}"\<close> (32);
    \<open>Thinking\<close>: \<^verbatim>\<open>"{U+1F914} Thinking..."\<close> without newline (39, 98);
    \<open>Erase_thinking\<close>: \<^verbatim>\<open>"\r" + " " * 20 + "\r"\<close> without newline (41, 100);
    \<open>Bot_line response\<close>: \<^verbatim>\<open>f"{U+1F916} Bot: {response}"\<close> (56, 115).
  \<^item> \<open>Goodbye_after_newline\<close>: \<^verbatim>\<open>"\n{U+1F44B} Goodbye!"\<close> (78);
    \<open>Goodbye\<close>: \<^verbatim>\<open>"{U+1F44B} Goodbye!"\<close> (82);
    \<open>Conversation_cleared\<close>: \<^verbatim>\<open>"{U+1F504} Conversation cleared!"\<close> (87).
  \<^item> \<open>Select_model\<close> (141); \<open>Model_option key description\<close>:
    \<^verbatim>\<open>f"  {key}. {model['description']}"\<close> (143); \<open>Defaulting_model\<close>:
    \<^verbatim>\<open>"\nDefaulting to OPT-125M..."\<close> (149); \<open>Invalid_model_choice model_choice\<close>:
    \<^verbatim>\<open>f"Invalid choice '{model_choice}', defaulting to OPT-125M..."\<close> (154).
  \<^item> \<open>Loading_model\<close> (159); \<open>Model_name name\<close>: \<^verbatim>\<open>f"Model: {selected_model['name']}\n"\<close>
    (160); \<open>Note_v1_engine\<close> (161); \<open>Note_stability\<close> (162);
    \<open>Failed_to_load e\<close>: \<^verbatim>\<open>f"{U+274C} Failed to load model: {e}"\<close> (173);
    \<open>Hint_v1_engine\<close> (174); \<open>Hint_numa_fix\<close> (175); \<open>Model_loaded\<close> (178).
  \<^item> \<open>Select_mode\<close> (192); \<open>Mode_option_canned\<close> (193); \<open>Mode_option_interactive\<close> (194);
    \<open>Defaulting_canned\<close>: \<^verbatim>\<open>"\nDefaulting to canned demo..."\<close> (200);
    \<open>Invalid_mode_choice choice\<close>:
    \<^verbatim>\<open>f"Invalid choice '{choice}', defaulting to canned demo..."\<close> (208).
\<close>

text \<open>
  \<^verbatim>\<open>SamplingParams\<close>; the decimal literals of the source are kept as rational numbers. The
  program computes nothing with them.
\<close>

record sampling_params =
  temperature :: rat
  top_p :: rat
  max_tokens :: nat
  repetition_penalty :: rat

text \<open>
  What the program does to the outside, in order: a \<^verbatim>\<open>print\<close>, a call of \<^verbatim>\<open>input\<close>, the
  construction \<^verbatim>\<open>LLM(model=..., max_model_len=..., enforce_eager=True,
  disable_log_stats=True)\<close>, and a call \<^verbatim>\<open>llm.generate([prompt], sampling_params)\<close>.
\<close>

datatype event =
    Print msg
  | Input prompt
  | LLM_init pystr nat
  | Generate pystr sampling_params

text \<open>
  The inference library is outside the program. A loaded model answers its \<open>k\<close>-th call of
  \<^verbatim>\<open>generate\<close> with an exception or with the text \<^verbatim>\<open>outputs[0].outputs[0].text\<close>; sampling
  is random, so the answer may depend on \<open>k\<close>.
\<close>

type_synonym llm = "nat \<Rightarrow> pystr \<Rightarrow> sampling_params \<Rightarrow> exn + pystr"

text \<open>A result together with the events that led to it.\<close>

definition emit :: "event list \<Rightarrow> 'a \<times> event list \<Rightarrow> 'a \<times> event list" where
  "emit evs r = (fst r, evs @ snd r)"

section \<open>One turn of the conversation\<close>

text \<open>
  Lines 40 to 56, the same as lines 99 to 115, given what \<^verbatim>\<open>generate\<close> did: the response
  is extracted and cleaned, appended to the history and printed. An exception of
  \<^verbatim>\<open>generate\<close> is not caught.
\<close>

definition finish_turn :: "pystr list \<Rightarrow> exn + pystr \<Rightarrow> (exn + pystr list) \<times> event list" where
  "finish_turn conversation_history generated =
     (case generated of
        Inl e \<Rightarrow> (Inl e, [])
      | Inr text \<Rightarrow>
          (case sanitize text of
             Inl e \<Rightarrow> (Inl e, [Print Erase_thinking])
           | Inr response \<Rightarrow>
               (Inr (append_assistant conversation_history response),
                [Print Erase_thinking, Print (Bot_line response)])))"

section \<open>\<^verbatim>\<open>run_canned_demo\<close>\<close>

definition canned_inputs :: "pystr list" where
  "canned_inputs =
     [str ''Hello, how are you?'',
      str ''What is the capital of France?'',
      str ''Tell me a short joke'']"

text \<open>The \<^verbatim>\<open>for\<close> loop of lines 31 to 56; \<open>k\<close> counts the calls of \<^verbatim>\<open>generate\<close>.\<close>

fun canned_loop ::
  "llm \<Rightarrow> sampling_params \<Rightarrow> nat \<Rightarrow> pystr list \<Rightarrow> pystr list
   \<Rightarrow> (exn + pystr list) \<times> event list" where
  "canned_loop llm sampling_params k conversation_history [] = (Inr conversation_history, [])"
| "canned_loop llm sampling_params k conversation_history (user_input # rest) =
     (case begin_turn conversation_history user_input of
        (conversation_history, prompt) \<Rightarrow>
          (case finish_turn conversation_history (llm k prompt sampling_params) of
             (Inl e, evs) \<Rightarrow>
               (Inl e,
                [Print (You_line user_input), Print Thinking, Generate prompt sampling_params]
                @ evs)
           | (Inr conversation_history, evs) \<Rightarrow>
               emit ([Print (You_line user_input), Print Thinking,
                      Generate prompt sampling_params] @ evs)
                 (canned_loop llm sampling_params (Suc k) conversation_history rest)))"

definition run_canned_demo :: "llm \<Rightarrow> sampling_params \<Rightarrow> (exn + unit) \<times> event list" where
  "run_canned_demo llm sampling_params =
     (case canned_loop llm sampling_params 0 [] canned_inputs of
        (Inl e, evs) \<Rightarrow>
          (Inl e, [Print Blank_then_rule, Print Canned_title, Print Rule_then_blank] @ evs)
      | (Inr conversation_history, evs) \<Rightarrow>
          (Inr (),
           [Print Blank_then_rule, Print Canned_title, Print Rule_then_blank] @ evs
           @ [Print Blank_then_rule, Print Canned_completed, Print Rule]))"

section \<open>\<^verbatim>\<open>run_interactive_demo\<close>\<close>

text \<open>
  \<^verbatim>\<open>s.lower()\<close>. On a string of ASCII characters it maps \<^verbatim>\<open>A\<close> to \<^verbatim>\<open>Z\<close> to \<^verbatim>\<open>a\<close> to
  \<^verbatim>\<open>z\<close>; on any other string it follows the Unicode tables of the interpreter, which
  are a parameter here.
\<close>

definition ascii_lower :: "nat \<Rightarrow> nat" where
  "ascii_lower c = (if 0x41 \<le> c \<and> c \<le> 0x5A then c + 0x20 else c)"

definition str_lower :: "(pystr \<Rightarrow> pystr) \<Rightarrow> pystr \<Rightarrow> pystr" where
  "str_lower unicode_lower s =
     (if list_all (\<lambda>c. c < 0x80) s then map ascii_lower s else unicode_lower s)"

text \<open>
  Lines 75 to 95 of the loop body, given what \<^verbatim>\<open>input\<close> did: leave the loop, let an
  exception pass, go on with the next iteration, or ask the model with the new history
  and the prompt.
\<close>

datatype command =
    Break "event list"
  | Reraise exn
  | Continue "pystr list" "event list"
  | Ask "pystr list" pystr

definition read_command :: "(pystr \<Rightarrow> pystr) \<Rightarrow> pystr list \<Rightarrow> exn + pystr \<Rightarrow> command" where
  "read_command unicode_lower conversation_history entered =
     (case entered of
        Inl e \<Rightarrow>
          if e = EOFError \<or> e = KeyboardInterrupt then Break [Print Goodbye_after_newline]
          else Reraise e
      | Inr line \<Rightarrow>
          (let user_input = str_strip line in
           if str_lower unicode_lower user_input \<in> set [str ''quit'', str ''exit'', str ''q'']
           then Break [Print Goodbye]
           else if str_lower unicode_lower user_input = str ''clear''
           then Continue [] [Print Conversation_cleared]
           else if user_input = [] then Continue conversation_history []
           else (case begin_turn conversation_history user_input of
                   (conversation_history, prompt) \<Rightarrow> Ask conversation_history prompt)))"

text \<open>The \<^verbatim>\<open>while True\<close> loop of lines 73 to 115.\<close>

function interactive_loop ::
  "(pystr \<Rightarrow> pystr) \<Rightarrow> llm \<Rightarrow> sampling_params \<Rightarrow> nat \<Rightarrow> pystr list \<Rightarrow> input_ev list
   \<Rightarrow> (exn + unit) \<times> event list" where
  "interactive_loop unicode_lower llm sampling_params k conversation_history stdin =
     (case read_command unicode_lower conversation_history (fst (py_input stdin)) of
        Break evs \<Rightarrow> (Inr (), Input You_prompt # evs)
      | Reraise e \<Rightarrow> (Inl e, [Input You_prompt])
      | Continue conversation_history evs \<Rightarrow>
          emit (Input You_prompt # evs)
            (interactive_loop unicode_lower llm sampling_params k conversation_history
               (snd (py_input stdin)))
      | Ask conversation_history prompt \<Rightarrow>
          (case finish_turn conversation_history (llm k prompt sampling_params) of
             (Inl e, evs) \<Rightarrow>
               (Inl e, [Input You_prompt, Print Thinking, Generate prompt sampling_params] @ evs)
           | (Inr conversation_history, evs) \<Rightarrow>
               emit ([Input You_prompt, Print Thinking, Generate prompt sampling_params] @ evs)
                 (interactive_loop unicode_lower llm sampling_params (Suc k)
                    conversation_history (snd (py_input stdin)))))"
  by pat_completeness auto

termination interactive_loop
proof (relation "measure (\<lambda>(unicode_lower, llm, sampling_params, k, history, stdin). length stdin)")
  show "wf (measure (\<lambda>(unicode_lower, llm, sampling_params, k, history, stdin :: input_ev list).
              length stdin))"
    by simp
next
  fix unicode_lower :: "pystr \<Rightarrow> pystr" and llm :: llm and sampling_params :: sampling_params
    and k :: nat and conversation_history h :: "pystr list" and stdin :: "input_ev list" and evs
  assume "read_command unicode_lower conversation_history (fst (py_input stdin)) = Continue h evs"
  then have "stdin \<noteq> []" by (auto simp: read_command_def)
  then have "length (snd (py_input stdin)) < length stdin"
    by (cases stdin rule: py_input.cases) simp_all
  then show "((unicode_lower, llm, sampling_params, k, h, snd (py_input stdin)),
              (unicode_lower, llm, sampling_params, k, conversation_history, stdin))
             \<in> measure (\<lambda>(unicode_lower, llm, sampling_params, k, history, stdin). length stdin)"
    by simp
next
  fix unicode_lower :: "pystr \<Rightarrow> pystr" and llm :: llm and sampling_params :: sampling_params
    and k :: nat and conversation_history h h' :: "pystr list" and stdin :: "input_ev list"
    and prompt :: pystr and x :: "(exn + pystr list) \<times> event list" and r evs
  assume "read_command unicode_lower conversation_history (fst (py_input stdin)) = Ask h prompt"
  then have "stdin \<noteq> []" by (auto simp: read_command_def)
  then have "length (snd (py_input stdin)) < length stdin"
    by (cases stdin rule: py_input.cases) simp_all
  then show "((unicode_lower, llm, sampling_params, Suc k, h', snd (py_input stdin)),
              (unicode_lower, llm, sampling_params, k, conversation_history, stdin))
             \<in> measure (\<lambda>(unicode_lower, llm, sampling_params, k, history, stdin). length stdin)"
    by simp
qed

definition run_interactive_demo ::
  "(pystr \<Rightarrow> pystr) \<Rightarrow> llm \<Rightarrow> sampling_params \<Rightarrow> input_ev list \<Rightarrow> (exn + unit) \<times> event list"
  where
  "run_interactive_demo unicode_lower llm sampling_params stdin =
     emit [Print Blank_then_rule, Print Interactive_title, Print Commands_header,
           Print Commands_quit, Print Commands_clear, Print Rule]
       (interactive_loop unicode_lower llm sampling_params 0 [] stdin)"

section \<open>\<^verbatim>\<open>main\<close>\<close>

record model_entry =
  name :: pystr
  path :: pystr
  description :: pystr
  max_len :: nat

text \<open>The dictionary \<^verbatim>\<open>models\<close> of lines 119 to 138, in the order of its keys.\<close>

definition models :: "(pystr \<times> model_entry) list" where
  "models =
     [(str ''1'',
       \<lparr>name = str ''facebook/opt-125m'',
        path = str ''facebook/opt-125m'',
        description = str ''OPT-125M (125M params) - Very fast, basic quality'',
        max_len = 512\<rparr>),
      (str ''2'',
       \<lparr>name = str ''Qwen2.5-1.5B-Instruct'',
        path = str ''/home/sameer/git/LLMs/Qwen2.5-1.5B-Instruct'',
        description = str ''Qwen2.5-1.5B (1.5B params) - Better quality, moderate speed'',
        max_len = 2048\<rparr>),
      (str ''3'',
       \<lparr>name = str ''SmolLM-1.7B-Instruct'',
        path = str ''/home/sameer/git/LLMs/SmolLM-1.7B-Instruct'',
        description = str ''SmolLM-1.7B (1.7B params) - Good quality, moderate speed'',
        max_len = 2048\<rparr>)]"

text \<open>
  Lines 140 to 157: the menu, the choice read from the input, the default for a choice
  that is no key of \<^verbatim>\<open>models\<close>, and the entry \<^verbatim>\<open>models[model_choice]\<close>.
\<close>

definition select_model ::
  "input_ev list \<Rightarrow> ((exn + model_entry) \<times> event list) \<times> input_ev list" where
  "select_model stdin =
     (let menu = [Print Rule, Print Select_model]
                 @ map (\<lambda>(key, model). Print (Model_option key (description model))) models
                 @ [Print Rule, Input Model_choice_prompt]
      in case py_input stdin of
           (entered, stdin) \<Rightarrow>
             (case (case entered of
                      Inr line \<Rightarrow> (Inr (str_strip line), [])
                    | Inl e \<Rightarrow>
                        if e = EOFError \<or> e = KeyboardInterrupt
                        then (Inr (str ''1''), [Print Defaulting_model])
                        else (Inl e, [])) of
                (Inl e, evs) \<Rightarrow> ((Inl e, menu @ evs), stdin)
              | (Inr model_choice, evs) \<Rightarrow>
                  (case (if map_of models model_choice = None
                         then (str ''1'',
                               if model_choice \<noteq> []
                               then [Print (Invalid_model_choice model_choice)] else [])
                         else (model_choice, [])) of
                     (model_choice, evs') \<Rightarrow>
                       (case map_of models model_choice of
                          None \<Rightarrow> ((Inl KeyError, menu @ evs @ evs'), stdin)
                        | Some selected_model \<Rightarrow>
                            ((Inr selected_model, menu @ evs @ evs'), stdin)))))"

text \<open>
  Lines 159 to 188: the model is loaded. \<open>None\<close> is the \<^verbatim>\<open>return\<close> of line 176; otherwise
  the loaded model and the sampling parameters.
\<close>

definition load_model ::
  "(pystr \<Rightarrow> nat \<Rightarrow> exn + llm) \<Rightarrow> model_entry
   \<Rightarrow> (exn + (llm \<times> sampling_params) option) \<times> event list" where
  "load_model LLM selected_model =
     (let announced = [Print Loading_model, Print (Model_name (name selected_model)),
                       Print Note_v1_engine, Print Note_stability,
                       LLM_init (path selected_model) (max_len selected_model)]
      in case LLM (path selected_model) (max_len selected_model) of
           Inl e \<Rightarrow>
             if is_Exception e
             then (Inr None,
                   announced @ [Print (Failed_to_load e), Print Hint_v1_engine,
                                Print Hint_numa_fix])
             else (Inl e, announced)
         | Inr llm \<Rightarrow>
             (let max_tokens = (if name selected_model = str ''facebook/opt-125m''
                                then 512 else 1024);
                  sampling_params = \<lparr>temperature = 0.8, top_p = 0.95,
                                     max_tokens = max_tokens, repetition_penalty = 1.2\<rparr>
              in (Inr (Some (llm, sampling_params)), announced @ [Print Model_loaded])))"

text \<open>Lines 191 to 209: the mode is read and the chosen demo runs.\<close>

definition select_mode ::
  "(pystr \<Rightarrow> pystr) \<Rightarrow> llm \<Rightarrow> sampling_params \<Rightarrow> input_ev list \<Rightarrow> (exn + unit) \<times> event list"
  where
  "select_mode unicode_lower llm sampling_params stdin =
     (let menu = [Print Rule, Print Select_mode, Print Mode_option_canned,
                  Print Mode_option_interactive, Print Rule, Input Mode_choice_prompt]
      in case py_input stdin of
           (entered, stdin) \<Rightarrow>
             (case (case entered of
                      Inr line \<Rightarrow> (Inr (str_strip line), [])
                    | Inl e \<Rightarrow>
                        if e = EOFError \<or> e = KeyboardInterrupt
                        then (Inr (str ''1''), [Print Defaulting_canned])
                        else (Inl e, [])) of
                (Inl e, evs) \<Rightarrow> (Inl e, menu @ evs)
              | (Inr choice, evs) \<Rightarrow>
                  if choice = str ''2''
                  then emit (menu @ evs)
                         (run_interactive_demo unicode_lower llm sampling_params stdin)
                  else emit (menu @ evs
                             @ (if choice \<noteq> [] \<and> choice \<noteq> str ''1''
                                then [Print (Invalid_mode_choice choice)] else []))
                         (run_canned_demo llm sampling_params)))"

definition main ::
  "(pystr \<Rightarrow> pystr) \<Rightarrow> (pystr \<Rightarrow> nat \<Rightarrow> exn + llm) \<Rightarrow> input_ev list
   \<Rightarrow> (exn + unit) \<times> event list" where
  "main unicode_lower LLM stdin =
     (case select_model stdin of
        ((Inl e, evs), stdin) \<Rightarrow> (Inl e, evs)
      | ((Inr selected_model, evs), stdin) \<Rightarrow>
          (case load_model LLM selected_model of
             (Inl e, evs') \<Rightarrow> (Inl e, evs @ evs')
           | (Inr None, evs') \<Rightarrow> (Inr (), evs @ evs')
           | (Inr (Some (llm, sampling_params)), evs') \<Rightarrow>
               emit (evs @ evs') (select_mode unicode_lower llm sampling_params stdin)))"

section \<open>The notions of the specification\<close>

text \<open>
  A turn of the specification: a role and a content. The program keeps no such value; it
  appends the line of a Human turn at lines 35 and 94 and the line of an Assistant turn at
  lines 53 and 112.
\<close>

datatype role = Human | Assistant

fun role_label :: "role \<Rightarrow> pystr" where
  "role_label Human = str ''Human''"
| "role_label Assistant = str ''Assistant''"

fun append_turn :: "pystr list \<Rightarrow> role \<times> pystr \<Rightarrow> pystr list" where
  "append_turn conversation_history (Human, content) =
     append_human conversation_history content"
| "append_turn conversation_history (Assistant, content) =
     append_assistant conversation_history content"

text \<open>
  The rendering in the words of the specification: \<^verbatim>\<open>"{role}: {content}"\<close> for each turn,
  newline-separated, then the cue \<^verbatim>\<open>"Assistant:"\<close>.
\<close>

definition turn_line :: "role \<times> pystr \<Rightarrow> pystr" where
  "turn_line t = role_label (fst t) @ str '': '' @ snd t"

fun spec_render :: "(role \<times> pystr) list \<Rightarrow> pystr" where
  "spec_render [] = str ''Assistant:''"
| "spec_render (t # ts) = turn_line t @ str ''\<newline>'' @ spec_render ts"

text \<open>The turns alternate, starting with a Human turn.\<close>

fun turns_alternate :: "pystr list \<Rightarrow> bool" where
  "turns_alternate [] = True"
| "turns_alternate [h] = prefix (str ''Human: '') h"
| "turns_alternate (h # a # rest) =
     (prefix (str ''Human: '') h \<and> prefix (str ''Assistant: '') a \<and> turns_alternate rest)"

text \<open>
  The states of a loop in which the history can be observed: before the next input is
  taken, and when the prompt has been built and \<^verbatim>\<open>generate\<close> is called with it.
\<close>

datatype point = At_input "pystr list" | At_generate "pystr list" pystr

inductive interactive_reach :: "(pystr \<Rightarrow> pystr) \<Rightarrow> point \<Rightarrow> bool"
  for unicode_lower :: "pystr \<Rightarrow> pystr" where
  interactive_start: "interactive_reach unicode_lower (At_input [])"
| interactive_continue:
    "interactive_reach unicode_lower (At_input h) \<Longrightarrow>
     read_command unicode_lower h entered = Continue h' evs \<Longrightarrow>
     interactive_reach unicode_lower (At_input h')"
| interactive_ask:
    "interactive_reach unicode_lower (At_input h) \<Longrightarrow>
     read_command unicode_lower h entered = Ask h' prompt \<Longrightarrow>
     interactive_reach unicode_lower (At_generate h' prompt)"
| interactive_answer:
    "interactive_reach unicode_lower (At_generate h prompt) \<Longrightarrow>
     finish_turn h generated = (Inr h', evs) \<Longrightarrow>
     interactive_reach unicode_lower (At_input h')"

text \<open>For the canned loop a state also has the inputs that are still to come.\<close>

inductive canned_reach :: "point \<Rightarrow> pystr list \<Rightarrow> bool" where
  canned_start: "canned_reach (At_input []) canned_inputs"
| canned_ask:
    "canned_reach (At_input h) (user_input # rest) \<Longrightarrow>
     begin_turn h user_input = (h', prompt) \<Longrightarrow>
     canned_reach (At_generate h' prompt) rest"
| canned_answer:
    "canned_reach (At_generate h prompt) rest \<Longrightarrow>
     finish_turn h generated = (Inr h', evs) \<Longrightarrow>
     canned_reach (At_input h') rest"

fun transcript_invariant :: "point \<Rightarrow> bool" where
  "transcript_invariant (At_input h) = (turns_alternate h \<and> even (length h))"
| "transcript_invariant (At_generate h prompt) =
     (turns_alternate h \<and> odd (length h) \<and> prefix (str ''Human: '') (last h)
      \<and> prompt = build_prompt h)"

text \<open>Every way of writing the letters of a lower-case word in upper or lower case.\<close>

definition ascii_upper :: "nat \<Rightarrow> nat" where
  "ascii_upper c = (if 0x61 \<le> c \<and> c \<le> 0x7A then c - 0x20 else c)"

fun capitalizations :: "pystr \<Rightarrow> pystr list" where
  "capitalizations [] = [[]]"
| "capitalizations (c # cs) =
     concat (map (\<lambda>rest. [c # rest, ascii_upper c # rest]) (capitalizations cs))"


definition lower_letter :: "nat \<Rightarrow> bool" where
  "lower_letter c = (0x61 \<le> c \<and> c \<le> 0x7A)"


text \<open>The events of the model menu (lines 140 to 155).\<close>

fun model_menu_event :: "event \<Rightarrow> bool" where
  "model_menu_event (Print Rule) = True"
| "model_menu_event (Print Select_model) = True"
| "model_menu_event (Print (Model_option key text)) = True"
| "model_menu_event (Print Defaulting_model) = True"
| "model_menu_event (Print (Invalid_model_choice c)) = True"
| "model_menu_event (Input Model_choice_prompt) = True"
| "model_menu_event ev = False"

text \<open>
  The text preceding the first occurrence of a separator, the whole text when the
  separator does not occur: the truncation the specification describes.
\<close>

definition text_preceding :: "'a list \<Rightarrow> 'a list \<Rightarrow> 'a list" where
  "text_preceding sep s = (case str_find sep s of None \<Rightarrow> s | Some i \<Rightarrow> take i s)"

section \<open>Facts about the string operations\<close>

lemma str_find_bound: "str_find sub s = Some i \<Longrightarrow> i + length sub \<le> length s"
proof (induction s arbitrary: i)
  case Nil then show ?case by (simp split: if_splits)
next
  case (Cons c s)
  show ?case
  proof (cases "prefix sub (c # s)")
    case True
    with Cons.prems have "i = 0" by simp
    with True prefix_length_le[of sub "c # s"] show ?thesis by simp
  next
    case False
    with Cons.prems obtain j where "str_find sub s = Some j" "i = Suc j" by auto
    with Cons.IH show ?thesis by auto
  qed
qed

lemma str_find_prefix: "str_find sub s = Some i \<Longrightarrow> prefix sub (drop i s)"
proof (induction s arbitrary: i)
  case Nil then show ?case by (simp split: if_splits)
next
  case (Cons c s)
  show ?case
  proof (cases "prefix sub (c # s)")
    case True
    with Cons.prems show ?thesis by simp
  next
    case False
    with Cons.prems obtain j where "str_find sub s = Some j" "i = Suc j" by auto
    with Cons.IH show ?thesis by auto
  qed
qed

lemma str_find_least: "str_find sub s = Some i \<Longrightarrow> j < i \<Longrightarrow> \<not> prefix sub (drop j s)"
proof (induction s arbitrary: i j)
  case Nil then show ?case by (simp split: if_splits)
next
  case (Cons c s)
  show ?case
  proof (cases "prefix sub (c # s)")
    case True
    with Cons.prems show ?thesis by simp
  next
    case False
    with Cons.prems obtain k where k: "str_find sub s = Some k" "i = Suc k" by auto
    show ?thesis
    proof (cases j)
      case 0 with False show ?thesis by simp
    next
      case (Suc j')
      with Cons.prems k have "j' < k" by simp
      with Cons.IH k have "\<not> prefix sub (drop j' s)" by blast
      with Suc show ?thesis by simp
    qed
  qed
qed

lemma str_find_None: "str_find sub s = None \<longleftrightarrow> \<not> sublist sub s"
  by (induction s) (auto simp: sublist_Cons_right)

lemma str_contains_sublist: "str_contains sub s \<longleftrightarrow> sublist sub s"
  by (simp add: str_contains_def str_find_None)

lemma str_find_SomeI:
  "prefix sub (drop i s) \<Longrightarrow> i \<le> length s \<Longrightarrow> (\<And>j. j < i \<Longrightarrow> \<not> prefix sub (drop j s))
   \<Longrightarrow> str_find sub s = Some i"
proof (induction s arbitrary: i)
  case Nil then show ?case by simp
next
  case (Cons c s)
  show ?case
  proof (cases i)
    case 0 with Cons.prems show ?thesis by simp
  next
    case (Suc k)
    with Cons.prems(3)[of 0] have np: "\<not> prefix sub (c # s)" by simp
    have "str_find sub s = Some k"
    proof (rule Cons.IH)
      show "prefix sub (drop k s)" using Cons.prems(1) Suc by simp
      show "k \<le> length s" using Cons.prems(2) Suc by simp
      fix j assume "j < k"
      then show "\<not> prefix sub (drop j s)" using Cons.prems(3)[of "Suc j"] Suc by simp
    qed
    with np Suc show ?thesis by simp
  qed
qed

lemma lstrip_append_space:
  "\<forall>c\<in>set w. isspace c \<Longrightarrow> str_lstrip (w @ s) = str_lstrip s"
  by (simp add: str_lstrip_def)

lemma rstrip_append_space:
  "\<forall>c\<in>set w. isspace c \<Longrightarrow> str_rstrip (s @ w) = str_rstrip s"
proof -
  assume "\<forall>c\<in>set w. isspace c"
  then have "dropWhile isspace (rev w @ rev s) = dropWhile isspace (rev s)"
    by (intro dropWhile_append2) simp
  then show ?thesis by (simp add: str_rstrip_def)
qed

lemma lstrip_decomp: "\<exists>w. (\<forall>c\<in>set w. isspace c) \<and> s = w @ str_lstrip s"
proof -
  have "s = takeWhile isspace s @ str_lstrip s" by (simp add: str_lstrip_def)
  moreover have "\<forall>c\<in>set (takeWhile isspace s). isspace c" by (auto dest: set_takeWhileD)
  ultimately show ?thesis by blast
qed

lemma rstrip_decomp: "\<exists>w. (\<forall>c\<in>set w. isspace c) \<and> s = str_rstrip s @ w"
proof -
  have "rev (rev s) = rev (takeWhile isspace (rev s) @ dropWhile isspace (rev s))"
    by (simp only: takeWhile_dropWhile_id)
  then have "s = str_rstrip s @ rev (takeWhile isspace (rev s))"
    by (simp only: rev_rev_ident rev_append str_rstrip_def)
  moreover have "\<forall>c\<in>set (rev (takeWhile isspace (rev s))). isspace c"
    by (auto dest: set_takeWhileD)
  ultimately show ?thesis by blast
qed

lemma lstrip_hd: "str_lstrip s = [] \<or> \<not> isspace (hd (str_lstrip s))"
  unfolding str_lstrip_def using hd_dropWhile[of isspace s] by blast

lemma rstrip_last: "str_rstrip s = [] \<or> \<not> isspace (last (str_rstrip s))"
proof (cases "dropWhile isspace (rev s) = []")
  case True then show ?thesis by (simp add: str_rstrip_def)
next
  case False
  then have "\<not> isspace (hd (dropWhile isspace (rev s)))" by (rule hd_dropWhile)
  with False show ?thesis by (simp add: str_rstrip_def last_rev)
qed

lemma lstrip_id: "s = [] \<or> \<not> isspace (hd s) \<Longrightarrow> str_lstrip s = s"
  by (cases s) (auto simp: str_lstrip_def)

lemma rstrip_id: "s = [] \<or> \<not> isspace (last s) \<Longrightarrow> str_rstrip s = s"
proof (cases "rev s")
  case Nil then show ?thesis by (simp add: str_rstrip_def)
next
  case (Cons x xs)
  assume "s = [] \<or> \<not> isspace (last s)"
  moreover from Cons have "s = rev xs @ [x]" by (metis rev.simps(2) rev_rev_ident)
  ultimately have "\<not> isspace x" by auto
  with Cons have "dropWhile isspace (rev s) = rev s" by simp
  then show ?thesis by (simp add: str_rstrip_def)
qed

lemma rstrip_keeps_hd:
  assumes "s = [] \<or> \<not> isspace (hd s)"
  shows "str_rstrip s = [] \<or> \<not> isspace (hd (str_rstrip s))"
proof -
  obtain w where w: "\<forall>c\<in>set w. isspace c" "s = str_rstrip s @ w"
    using rstrip_decomp by blast
  show ?thesis
  proof (cases "str_rstrip s = []")
    case True then show ?thesis by simp
  next
    case False
    then have "hd s = hd (str_rstrip s)" using w(2) by (metis hd_append2)
    moreover have "s \<noteq> []" using False w(2) by auto
    ultimately show ?thesis using assms by simp
  qed
qed

lemma strip_hd: "str_strip s = [] \<or> \<not> isspace (hd (str_strip s))"
  unfolding str_strip_def by (rule rstrip_keeps_hd) (rule lstrip_hd)

lemma strip_last: "str_strip s = [] \<or> \<not> isspace (last (str_strip s))"
  unfolding str_strip_def by (rule rstrip_last)

lemma strip_id:
  "s = [] \<or> \<not> isspace (hd s) \<Longrightarrow> s = [] \<or> \<not> isspace (last s) \<Longrightarrow> str_strip s = s"
  by (simp add: str_strip_def lstrip_id rstrip_id)

lemma strip_idem: "str_strip (str_strip s) = str_strip s"
  by (rule strip_id) (rule strip_hd, rule strip_last)

lemma all_space_rstrip: "\<forall>c\<in>set w. isspace c \<Longrightarrow> str_rstrip w = []"
  using rstrip_append_space[of w "[]"] by (simp add: str_rstrip_def)

lemma strip_commute: "str_lstrip (str_rstrip s) = str_rstrip (str_lstrip s)"
proof -
  obtain a where a: "\<forall>c\<in>set a. isspace c" "s = a @ str_lstrip s"
    using lstrip_decomp by blast
  define l where "l = str_lstrip s"
  obtain w where w: "\<forall>c\<in>set w. isspace c" "l = str_rstrip l @ w"
    using rstrip_decomp by blast
  define r where "r = str_rstrip l"
  have l_hd: "l = [] \<or> \<not> isspace (hd l)" unfolding l_def by (rule lstrip_hd)
  have r_hd: "r = [] \<or> \<not> isspace (hd r)" unfolding r_def using l_hd by (rule rstrip_keeps_hd)
  have r_last: "r = [] \<or> \<not> isspace (last r)" unfolding r_def by (rule rstrip_last)
  have s_eq: "s = (a @ r) @ w" using a(2) w(2) by (simp add: l_def r_def)
  have "str_rstrip s = str_rstrip (a @ r)"
    by (subst s_eq) (rule rstrip_append_space[OF w(1)])
  show ?thesis
  proof (cases "r = []")
    case True
    have "str_rstrip s = str_rstrip a" by (subst s_eq) (simp add: True rstrip_append_space[OF w(1)])
    then have "str_rstrip s = []" using all_space_rstrip[OF a(1)] by simp
    then show ?thesis using True by (simp add: l_def r_def str_lstrip_def)
  next
    case False
    then have "\<not> isspace (last (a @ r))" using r_last by simp
    then have "str_rstrip (a @ r) = a @ r" by (intro rstrip_id) simp
    then have "str_rstrip s = a @ r" using \<open>str_rstrip s = str_rstrip (a @ r)\<close> by simp
    then have "str_lstrip (str_rstrip s) = str_lstrip r"
      using lstrip_append_space[OF a(1)] by simp
    also have "\<dots> = r" using r_hd by (rule lstrip_id)
    finally show ?thesis by (simp add: r_def l_def)
  qed
qed

lemma strip_append_spaces:
  assumes "\<forall>c\<in>set a. isspace c" "\<forall>c\<in>set b. isspace c"
  shows "str_strip (a @ s @ b) = str_strip s"
proof -
  have "str_strip (a @ s @ b) = str_rstrip (str_lstrip (s @ b))"
    by (simp add: str_strip_def lstrip_append_space[OF assms(1)])
  also have "\<dots> = str_lstrip (str_rstrip (s @ b))" by (simp add: strip_commute)
  also have "\<dots> = str_lstrip (str_rstrip s)" by (simp add: rstrip_append_space[OF assms(2)])
  also have "\<dots> = str_strip s" by (simp add: strip_commute str_strip_def)
  finally show ?thesis .
qed

lemma strip_lstrip: "str_strip (str_lstrip s) = str_strip s"
proof -
  obtain a where a: "\<forall>c\<in>set a. isspace c" "s = a @ str_lstrip s"
    using lstrip_decomp by blast
  have "str_strip (a @ str_lstrip s @ []) = str_strip (str_lstrip s)"
    by (rule strip_append_spaces[OF a(1)]) simp
  with a(2) show ?thesis by simp
qed

lemma strip_rstrip: "str_strip (str_rstrip s) = str_strip s"
proof -
  obtain w where w: "\<forall>c\<in>set w. isspace c" "s = str_rstrip s @ w"
    using rstrip_decomp by blast
  have "str_strip ([] @ str_rstrip s @ w) = str_strip (str_rstrip s)"
    by (rule strip_append_spaces[OF _ w(1)]) simp
  with w(2) show ?thesis by simp
qed

lemma take_keeps_hd: "s = [] \<or> \<not> isspace (hd s) \<Longrightarrow> take n s = [] \<or> \<not> isspace (hd (take n s))"
  by (cases s; cases n) auto

lemma str_find_drop:
  assumes "str_find sub s = Some i" "k \<le> i"
  shows "str_find sub (drop k s) = Some (i - k)"
proof (rule str_find_SomeI)
  show "prefix sub (drop (i - k) (drop k s))"
    using str_find_prefix[OF assms(1)] assms(2) by simp
  show "i - k \<le> length (drop k s)"
    using str_find_bound[OF assms(1)] assms(2) by simp
  fix j assume "j < i - k"
  then have "j + k < i" by simp
  then have "\<not> prefix sub (drop (j + k) s)" by (rule str_find_least[OF assms(1)])
  then show "\<not> prefix sub (drop j (drop k s))" by simp
qed

lemma prefix_take_iff: "prefix sub (take n t) \<longleftrightarrow> prefix sub t \<and> length sub \<le> n"
proof
  assume p: "prefix sub (take n t)"
  have "prefix (take n t) t" by (rule take_is_prefix)
  with p have "prefix sub t" by (rule prefix_order.order_trans)
  moreover from p have "length sub \<le> length (take n t)" by (rule prefix_length_le)
  ultimately show "prefix sub t \<and> length sub \<le> n" by simp
next
  assume "prefix sub t \<and> length sub \<le> n"
  then obtain r where "t = sub @ r" "length sub \<le> n" by (auto simp: prefix_def)
  then show "prefix sub (take n t)" by simp
qed

lemma str_find_take:
  assumes "str_find sub s = Some i" "i + length sub \<le> n"
  shows "str_find sub (take n s) = Some i"
proof (rule str_find_SomeI)
  have "drop i (take n s) = take (n - i) (drop i s)" by (simp add: drop_take)
  then show "prefix sub (drop i (take n s))"
    using str_find_prefix[OF assms(1)] assms(2) by (simp add: prefix_take_iff)
  show "i \<le> length (take n s)"
    using str_find_bound[OF assms(1)] assms(2) by simp
  fix j assume "j < i"
  then have "\<not> prefix sub (drop j s)" by (rule str_find_least[OF assms(1)])
  then show "\<not> prefix sub (drop j (take n s))"
    by (simp add: drop_take prefix_take_iff)
qed

lemma str_find_None_append_right: "str_find sub (s @ b) = None \<Longrightarrow> str_find sub s = None"
  by (auto simp: str_find_None sublist_append)

lemma str_find_skip_spaces:
  assumes "sub \<noteq> []" "\<not> isspace (hd sub)" "\<forall>c\<in>set a. isspace c"
  shows "str_find sub (a @ s) = map_option (\<lambda>i. length a + i) (str_find sub s)"
  using assms(3)
proof (induction a)
  case Nil then show ?case by (simp add: option.map_ident)
next
  case (Cons c a)
  then have "isspace c" by simp
  with assms(1,2) have "\<not> prefix sub (c # a @ s)" by (cases sub) auto
  with Cons show ?case by (simp add: option.map_comp comp_def)
qed

lemma prefix_append_spaces:
  assumes "sub \<noteq> []" "\<not> isspace (last sub)" "\<forall>c\<in>set w. isspace c"
  shows "prefix sub (t @ w) \<longleftrightarrow> prefix sub t"
proof
  assume "prefix sub (t @ w)"
  then have "prefix sub t \<or> (\<exists>us. sub = t @ us \<and> prefix us w)"
    by (simp add: prefix_append)
  then consider "prefix sub t" | us where "sub = t @ us" "us \<noteq> []" "prefix us w"
    by (cases "prefix sub t") auto
  then show "prefix sub t"
  proof cases
    case 1 then show ?thesis .
  next
    case 2
    then have "last sub = last us" by simp
    moreover have "last us \<in> set us" using 2 by simp
    moreover have "set us \<subseteq> set w" using 2 by (auto simp: prefix_def)
    ultimately show ?thesis using assms by auto
  qed
next
  assume "prefix sub t" then show "prefix sub (t @ w)" by (rule prefix_prefix)
qed

lemma str_find_all_space:
  assumes "sub \<noteq> []" "\<not> isspace (last sub)" "\<forall>c\<in>set w. isspace c"
  shows "str_find sub w = None"
proof -
  have "\<not> sublist sub w"
  proof
    assume "sublist sub w"
    then have "set sub \<subseteq> set w" by (rule set_mono_sublist)
    moreover have "last sub \<in> set sub" using assms(1) by simp
    ultimately have "last sub \<in> set w" by blast
    then show False using assms(2,3) by blast
  qed
  then show ?thesis by (simp add: str_find_None)
qed

lemma str_find_drop_spaces:
  assumes "sub \<noteq> []" "\<not> isspace (last sub)" "\<forall>c\<in>set w. isspace c"
  shows "str_find sub (s @ w) = str_find sub s"
proof (induction s)
  case Nil
  then show ?case using str_find_all_space[OF assms] assms(1) by simp
next
  case (Cons c s)
  have "prefix sub ((c # s) @ w) \<longleftrightarrow> prefix sub (c # s)"
    by (rule prefix_append_spaces[OF assms])
  with Cons show ?case by simp
qed

lemma str_split_loop_first:
  "sep \<noteq> [] \<Longrightarrow> \<exists>rest. str_split_loop sep s = text_preceding sep s # rest"
  by (subst str_split_loop.simps) (simp add: text_preceding_def split: option.splits)

lemma split_first_part:
  assumes "sep \<noteq> []"
  shows "bind (str_split sep s) (\<lambda>parts. bind (getitem parts 0) (\<lambda>part. Inr (f part)))
         = Inr (f (text_preceding sep s))"
proof -
  obtain rest where "str_split_loop sep s = text_preceding sep s # rest"
    using str_split_loop_first[OF assms] by blast
  then show ?thesis using assms by (simp add: str_split_def bind_def getitem_def)
qed

lemma text_preceding_absent: "\<not> str_contains sep s \<Longrightarrow> text_preceding sep s = s"
  by (simp add: str_contains_def text_preceding_def)

lemma human_marker_facts:
  "str ''Human:'' \<noteq> []" "\<not> isspace (hd (str ''Human:''))" "\<not> isspace (last (str ''Human:''))"
  by (simp_all add: str_def isspace_def)

lemma blank_line_facts:
  "str ''\<newline>\<newline>'' \<noteq> []" "\<forall>c\<in>set (str ''\<newline>\<newline>''). isspace c"
  by (simp_all add: str_def isspace_def)

lemma sanitize_steps:
  "sanitize text =
     Inr (str_strip (text_preceding (str ''\<newline>\<newline>'')
            (str_strip (text_preceding (str ''Human:'') (str_strip text)))))"
proof -
  define r0 where "r0 = str_strip text"
  define r1 where "r1 = str_strip (text_preceding (str ''Human:'') r0)"
  have a: "(if str_contains (str ''Human:'') r0
           then bind (str_split (str ''Human:'') r0)
                  (\<lambda>parts. bind (getitem parts 0) (\<lambda>part. Inr (str_strip part)))
           else Inr r0) = Inr r1"
    by (simp add: split_first_part[OF human_marker_facts(1)] r1_def text_preceding_absent
        r0_def strip_idem)
  have b: "(if str_contains (str ''\<newline>\<newline>'') r1
          then bind (str_split (str ''\<newline>\<newline>'') r1)
                 (\<lambda>parts. bind (getitem parts 0) (\<lambda>part. Inr (str_strip part)))
          else Inr r1) = Inr (str_strip (text_preceding (str ''\<newline>\<newline>'') r1))"
    by (simp add: split_first_part[OF blank_line_facts(1)] r1_def text_preceding_absent strip_idem)
  show ?thesis
    unfolding sanitize_def extract_response_def clean_up_response_def
    unfolding r0_def[symmetric] a
    by (simp add: bind_def b) (simp add: r1_def)
qed

lemma prefix_drop_nth:
  assumes "prefix sub (drop i s)" "k < length sub"
  shows "i + k < length s \<and> s ! (i + k) = sub ! k"
proof -
  from assms obtain r where r: "drop i s = sub @ r" by (auto simp: prefix_def)
  then have "length (drop i s) = length sub + length r" by simp
  with assms(2) have len: "i + k < length s" by simp
  then have "s ! (i + k) = drop i s ! k" by simp
  also have "\<dots> = sub ! k" using r assms(2) by (simp add: nth_append)
  finally show ?thesis using len by simp
qed

lemma text_preceding_space_rstrip:
  assumes sep: "sep \<noteq> []" "\<forall>c\<in>set sep. isspace c"
  shows "str_strip (text_preceding sep (str_rstrip p)) = str_strip (text_preceding sep p)"
proof -
  define q where "q = str_rstrip p"
  obtain w where w: "\<forall>c\<in>set w. isspace c" "p = q @ w"
    unfolding q_def using rstrip_decomp by blast
  have q_last: "q = [] \<or> \<not> isspace (last q)" unfolding q_def by (rule rstrip_last)
  show ?thesis
  proof (cases "str_find sep p")
    case None
    then have "str_find sep q = None" using w(2) str_find_None_append_right by metis
    with None show ?thesis
      by (simp add: text_preceding_def q_def[symmetric]) (simp add: q_def strip_rstrip)
  next
    case (Some i)
    show ?thesis
    proof (cases "i + length sep \<le> length q")
      case True
      have "str_find sep (take (length q) p) = Some i" using Some True by (rule str_find_take)
      then have "str_find sep q = Some i" using w(2) by simp
      moreover have "take i q = take i p" using True w(2) by simp
      ultimately show ?thesis using Some by (simp add: text_preceding_def q_def[symmetric])
    next
      case False
      have pre: "prefix sep (drop i p)" using Some by (rule str_find_prefix)
      have ge: "length q \<le> i"
      proof (rule ccontr)
        assume "\<not> length q \<le> i"
        then have lt: "i < length q" by simp
        define k where "k = length q - 1 - i"
        have k: "k < length sep" "i + k = length q - 1" using lt False by (simp_all add: k_def)
        have "p ! (i + k) = sep ! k" using prefix_drop_nth[OF pre k(1)] by simp
        moreover have "p ! (length q - 1) = last q"
        proof -
          have "q \<noteq> []" using lt by auto
          then have "last q = q ! (length q - 1)" by (rule last_conv_nth)
          moreover have "length q - 1 < length q" using lt by simp
          ultimately show ?thesis using w(2) by (simp add: nth_append)
        qed
        ultimately have "last q = sep ! k" using k(2) by simp
        then have "isspace (last q)" using sep(2) k(1) by simp
        moreover have "q \<noteq> []" using lt by auto
        ultimately show False using q_last by simp
      qed
      have none: "str_find sep q = None"
      proof (cases "str_find sep q")
        case None then show ?thesis .
      next
        case (Some j)
        have "j + length sep \<le> length q" using Some by (rule str_find_bound)
        with ge sep(1) have ji: "j < i" by (cases sep) auto
        have "prefix sep (drop j q)" using Some by (rule str_find_prefix)
        then have "prefix sep (drop j q @ w)" by (rule prefix_prefix)
        moreover have "drop j p = drop j q @ w"
          using \<open>j + length sep \<le> length q\<close> w(2) by simp
        ultimately have "prefix sep (drop j p)" by simp
        with str_find_least[OF \<open>str_find sep p = Some i\<close> ji] show ?thesis by simp
      qed
      have "take i p = q @ take (i - length q) w" using ge w(2) by simp
      moreover have "\<forall>c\<in>set (take (i - length q) w). isspace c"
        using w(1) by (auto dest: in_set_takeD)
      ultimately have "str_strip (take i p) = str_strip q"
        using strip_append_spaces[of "[]" "take (i - length q) w" q] by simp
      with none Some show ?thesis by (simp add: text_preceding_def q_def[symmetric])
    qed
  qed
qed

lemma text_preceding_keeps_hd:
  "s = [] \<or> \<not> isspace (hd s) \<Longrightarrow>
   text_preceding sep s = [] \<or> \<not> isspace (hd (text_preceding sep s))"
  by (auto simp: text_preceding_def take_keeps_hd split: option.splits)

lemma sanitize_normal_form:
  "sanitize text =
     Inr (str_strip (text_preceding (str ''\<newline>\<newline>'')
            (text_preceding (str ''Human:'') (str_strip text))))"
proof -
  define p where "p = text_preceding (str ''Human:'') (str_strip text)"
  have "p = [] \<or> \<not> isspace (hd p)"
    unfolding p_def by (rule text_preceding_keeps_hd) (rule strip_hd)
  then have "str_strip p = str_rstrip p" by (simp add: str_strip_def lstrip_id)
  then have "str_strip (text_preceding (str ''\<newline>\<newline>'') (str_strip p))
           = str_strip (text_preceding (str ''\<newline>\<newline>'') p)"
    using text_preceding_space_rstrip[OF blank_line_facts] by simp
  then show ?thesis by (simp add: sanitize_steps p_def)
qed

lemma text_preceding_marker_strip:
  assumes sub: "sub \<noteq> []" "\<not> isspace (hd sub)" "\<not> isspace (last sub)"
    and found: "str_find sub raw = Some i"
  shows "text_preceding sub (str_strip raw) = str_lstrip (take i raw)"
proof -
  define l where "l = str_lstrip raw"
  define b where "b = str_strip raw"
  obtain a where a: "\<forall>c\<in>set a. isspace c" "raw = a @ l"
    unfolding l_def using lstrip_decomp by blast
  obtain w where w: "\<forall>c\<in>set w. isspace c" "l = b @ w"
    unfolding b_def str_strip_def l_def using rstrip_decomp by blast
  have b_hd: "b = [] \<or> \<not> isspace (hd b)" unfolding b_def by (rule strip_hd)
  have "str_find sub raw = map_option (\<lambda>i. length a + i) (str_find sub l)"
    by (subst a(2)) (rule str_find_skip_spaces[OF sub(1,2) a(1)])
  moreover have "str_find sub l = str_find sub b"
    by (subst w(2)) (rule str_find_drop_spaces[OF sub(1,3) w(1)])
  ultimately obtain k where k: "str_find sub b = Some k" "i = length a + k"
    using found by (cases "str_find sub b") auto
  have "k + length sub \<le> length b" using k(1) by (rule str_find_bound)
  then have "take i raw = a @ take k b" using k(2) a(2) w(2) by simp
  then have "str_lstrip (take i raw) = str_lstrip (take k b)"
    using lstrip_append_space[OF a(1)] by simp
  also have "\<dots> = take k b" by (rule lstrip_id) (rule take_keeps_hd[OF b_hd])
  finally show ?thesis using k(1) by (simp add: text_preceding_def b_def[symmetric])
qed

lemma sanitize_at_marker:
  assumes "str_find (str ''Human:'') raw = Some i"
  shows "sanitize raw =
           Inr (str_strip (text_preceding (str ''\<newline>\<newline>'') (str_strip (take i raw))))"
proof -
  define p where "p = str_lstrip (take i raw)"
  have "str_strip (take i raw) = str_rstrip p" by (simp add: str_strip_def p_def)
  then have "str_strip (text_preceding (str ''\<newline>\<newline>'') (str_strip (take i raw)))
           = str_strip (text_preceding (str ''\<newline>\<newline>'') p)"
    using text_preceding_space_rstrip[OF blank_line_facts] by simp
  moreover have "text_preceding (str ''Human:'') (str_strip raw) = p"
    unfolding p_def by (rule text_preceding_marker_strip[OF human_marker_facts assms])
  ultimately show ?thesis by (simp add: sanitize_normal_form)
qed

lemma text_preceding_space_lstrip:
  assumes found: "str_find sep s = Some i" and ns: "\<exists>c\<in>set (take i s). \<not> isspace c"
  shows "text_preceding sep (str_lstrip s) = str_lstrip (take i s)"
proof -
  define l where "l = str_lstrip s"
  obtain a where a: "\<forall>c\<in>set a. isspace c" "s = a @ l"
    unfolding l_def using lstrip_decomp by blast
  have l_hd: "l = [] \<or> \<not> isspace (hd l)" unfolding l_def by (rule lstrip_hd)
  have le: "length a \<le> i"
  proof (rule ccontr)
    assume "\<not> length a \<le> i"
    then have "take i s = take i a" using a(2) by simp
    then have "set (take i s) \<subseteq> set a" by (simp add: set_take_subset)
    with a(1) ns show False by blast
  qed
  have "str_find sep (drop (length a) s) = Some (i - length a)"
    using found le by (rule str_find_drop)
  then have f: "str_find sep l = Some (i - length a)" using a(2) by simp
  have "take i s = a @ take (i - length a) l" using le a(2) by simp
  then have "str_lstrip (take i s) = str_lstrip (take (i - length a) l)"
    using lstrip_append_space[OF a(1)] by simp
  also have "\<dots> = take (i - length a) l" by (rule lstrip_id) (rule take_keeps_hd[OF l_hd])
  finally show ?thesis using f by (simp add: text_preceding_def l_def[symmetric])
qed

lemma strip_nonempty_iff: "str_strip s \<noteq> [] \<longleftrightarrow> (\<exists>c\<in>set s. \<not> isspace c)"
proof
  assume ne: "str_strip s \<noteq> []"
  obtain a where a: "\<forall>c\<in>set a. isspace c" "s = a @ str_lstrip s"
    using lstrip_decomp by blast
  obtain w where w: "\<forall>c\<in>set w. isspace c" "str_lstrip s = str_strip s @ w"
    unfolding str_strip_def using rstrip_decomp by blast
  have "hd (str_strip s) \<in> set (str_strip s)" using ne by simp
  then have "hd (str_strip s) \<in> set s" using a(2) w(2) by (metis Un_iff set_append)
  moreover have "\<not> isspace (hd (str_strip s))" using strip_hd[of s] ne by simp
  ultimately show "\<exists>c\<in>set s. \<not> isspace c" by blast
next
  assume "\<exists>c\<in>set s. \<not> isspace c"
  show "str_strip s \<noteq> []"
  proof
    assume e: "str_strip s = []"
    obtain a where a: "\<forall>c\<in>set a. isspace c" "s = a @ str_lstrip s"
      using lstrip_decomp by blast
    obtain w where w: "\<forall>c\<in>set w. isspace c" "str_lstrip s = str_strip s @ w"
      unfolding str_strip_def using rstrip_decomp by blast
    from a w e have "\<forall>c\<in>set s. isspace c" by (metis Un_iff append_Nil set_append)
    with \<open>\<exists>c\<in>set s. \<not> isspace c\<close> show False by blast
  qed
qed

lemma occurrences_disjoint:
  assumes "prefix m (drop j s)" "prefix b (drop i s)" "set m \<inter> set b = {}"
    and ne: "m \<noteq> []" "b \<noteq> []"
  shows "j + length m \<le> i \<or> i + length b \<le> j"
proof (rule ccontr)
  assume "\<not> ?thesis"
  then have ov: "i < j + length m" "j < i + length b" by simp_all
  define n where "n = max i j"
  have km: "n - j < length m" and kb: "n - i < length b" using ov ne by (auto simp: n_def max_def)
  have "s ! (j + (n - j)) = m ! (n - j)" using prefix_drop_nth[OF assms(1) km] by simp
  moreover have "s ! (i + (n - i)) = b ! (n - i)" using prefix_drop_nth[OF assms(2) kb] by simp
  moreover have "j + (n - j) = n" "i + (n - i) = n" by (simp_all add: n_def)
  ultimately have "m ! (n - j) = b ! (n - i)" by simp
  moreover have "m ! (n - j) \<in> set m" using km by simp
  moreover have "b ! (n - i) \<in> set b" using kb by simp
  ultimately show False using assms(3) by (metis disjoint_iff)
qed

lemma markers_disjoint: "set (str ''Human:'') \<inter> set (str ''\<newline>\<newline>'') = {}"
  by (simp add: str_def)

lemma sanitize_at_blank_line:
  assumes found: "str_find (str ''\<newline>\<newline>'') raw = Some i"
    and nomarker: "\<not> str_contains (str ''Human:'') (take i raw)"
    and nonspace: "str_strip (take i raw) \<noteq> []"
  shows "sanitize raw = Inr (str_strip (take i raw))"
proof -
  have ns: "\<exists>c\<in>set (take i raw). \<not> isspace c" using nonspace by (simp add: strip_nonempty_iff)
  show ?thesis
  proof (cases "str_find (str ''Human:'') raw")
    case None
    have "\<not> sublist (str ''Human:'') raw" using None by (simp add: str_find_None)
    moreover have "sublist (str_strip raw) raw"
    proof -
      obtain a where a: "raw = a @ str_lstrip raw" using lstrip_decomp by blast
      obtain w where w: "str_lstrip raw = str_strip raw @ w"
        unfolding str_strip_def using rstrip_decomp by blast
      have "raw = a @ str_strip raw @ w" using a w by simp
      then show ?thesis by (metis sublist_appendI)
    qed
    ultimately have "\<not> sublist (str ''Human:'') (str_strip raw)"
      using sublist_order.order_trans by blast
    then have "text_preceding (str ''Human:'') (str_strip raw) = str_strip raw"
      by (simp add: text_preceding_def str_find_None[symmetric])
    then have "sanitize raw
      = Inr (str_strip (text_preceding (str ''\<newline>\<newline>'') (str_rstrip (str_lstrip raw))))"
      by (simp add: sanitize_normal_form) (simp add: str_strip_def)
    also have "\<dots> = Inr (str_strip (text_preceding (str ''\<newline>\<newline>'') (str_lstrip raw)))"
      using text_preceding_space_rstrip[OF blank_line_facts] by simp
    also have "\<dots> = Inr (str_strip (str_lstrip (take i raw)))"
      using text_preceding_space_lstrip[OF found ns] by simp
    finally show ?thesis by (simp add: strip_lstrip)
  next
    case (Some j)
    have pm: "prefix (str ''Human:'') (drop j raw)" using Some by (rule str_find_prefix)
    have pb: "prefix (str ''\<newline>\<newline>'') (drop i raw)" using found by (rule str_find_prefix)
    have "\<not> j + length (str ''Human:'') \<le> i"
    proof
      assume le: "j + length (str ''Human:'') \<le> i"
      have "str_find (str ''Human:'') (take i raw) = Some j" using Some le by (rule str_find_take)
      with nomarker show False by (simp add: str_contains_def)
    qed
    with occurrences_disjoint[OF pm pb markers_disjoint human_marker_facts(1) blank_line_facts(1)]
    have ij: "i + length (str ''\<newline>\<newline>'') \<le> j" by simp
    have fb: "str_find (str ''\<newline>\<newline>'') (take j raw) = Some i"
      using found ij by (rule str_find_take)
    have tk: "take i (take j raw) = take i raw" using ij by (simp add: min_def)
    have ns': "\<exists>c\<in>set (take i (take j raw)). \<not> isspace c" unfolding tk by (rule ns)
    have "text_preceding (str ''Human:'') (str_strip raw) = str_lstrip (take j raw)"
      by (rule text_preceding_marker_strip[OF human_marker_facts Some])
    moreover have "text_preceding (str ''\<newline>\<newline>'') (str_lstrip (take j raw))
                 = str_lstrip (take i (take j raw))"
      by (rule text_preceding_space_lstrip[OF fb ns'])
    ultimately show ?thesis unfolding sanitize_normal_form tk by (simp add: strip_lstrip)
  qed
qed

lemma sanitize_after_leading_blank_line:
  assumes found: "str_find (str ''\<newline>\<newline>'') raw = Some i"
    and allspace: "str_strip (take i raw) = []"
  shows "sanitize raw = sanitize (drop (i + 2) raw)"
proof -
  have pb: "prefix (str ''\<newline>\<newline>'') (drop i raw)" using found by (rule str_find_prefix)
  then obtain r where r: "drop i raw = str ''\<newline>\<newline>'' @ r" by (auto simp: prefix_def)
  have len: "length (str ''\<newline>\<newline>'') = 2" by (simp add: str_def)
  have "drop (i + 2) raw = drop 2 (drop i raw)" by (simp add: add.commute)
  then have d: "drop (i + 2) raw = r" using r len by simp
  have "raw = take i raw @ drop i raw" by simp
  then have raw: "raw = (take i raw @ str ''\<newline>\<newline>'') @ r @ []" using r by simp
  have "\<forall>c\<in>set (take i raw). isspace c" using allspace strip_nonempty_iff[of "take i raw"] by blast
  then have "\<forall>c\<in>set (take i raw @ str ''\<newline>\<newline>''). isspace c"
    using blank_line_facts(2) by auto
  then have "str_strip ((take i raw @ str ''\<newline>\<newline>'') @ r @ []) = str_strip r"
    by (rule strip_append_spaces) simp
  then have "str_strip raw = str_strip r" using raw by simp
  then show ?thesis unfolding sanitize_normal_form d by simp
qed

lemmas eval_str = str_def isspace_def str_strip_def str_lstrip_def str_rstrip_def
  str_contains_def text_preceding_def

section \<open>Facts about the prompt\<close>

lemma turn_line_code:
  "turn_line (Human, c) = str ''Human: '' @ c" "turn_line (Assistant, c) = str ''Assistant: '' @ c"
  by (simp_all add: turn_line_def str_def)

lemma foldl_append_turn: "foldl append_turn h ts = h @ map turn_line ts"
proof (induction ts arbitrary: h)
  case Nil then show ?case by simp
next
  case (Cons t ts)
  obtain r c where t: "t = (r, c)" by (cases t)
  show ?case
    by (cases r) (simp_all add: t Cons.IH append_human_def append_assistant_def turn_line_code)
qed

lemma join_lines_cue:
  "str_join (str ''\<newline>'') (map turn_line (t # ts)) @ str ''\<newline>Assistant:''
   = spec_render (t # ts)"
proof (induction ts arbitrary: t)
  case Nil
  show ?case by (simp add: str_def)
next
  case (Cons u ts)
  from Cons[of u] show ?case by simp
qed

section \<open>Claims about the prompt\<close>

text \<open>
  Claim C1. For every sequence of turns appended to an empty history by the two append
  statements of the program, of one turn or more, the prompt built from the history is
  the line \<^verbatim>\<open>"{role}: {content}"\<close> of each turn in the order of the appends, each followed
  by a newline, and then the cue \<^verbatim>\<open>"Assistant:"\<close>. The program builds a prompt only
  directly after an append (lines 35 and 36, lines 94 and 95), so a rendered history has a
  last appended turn \<open>t\<close>.
\<close>

theorem render_appended_turns:
  "build_prompt (foldl append_turn [] (ts @ [t])) = spec_render (ts @ [t])"
proof (cases ts)
  case Nil
  then show ?thesis
    unfolding build_prompt_def foldl_append_turn using join_lines_cue[of t "[]"] by simp
next
  case (Cons u us)
  then show ?thesis
    unfolding build_prompt_def foldl_append_turn using join_lines_cue[of u "us @ [t]"] by simp
qed

section \<open>Claims about the sanitizer\<close>

text \<open>
  Claim C3, as stated: when the raw text holds the marker \<^verbatim>\<open>Human:\<close>, the sanitized
  output is the trimmed text that precedes the first marker. It is not when that text holds
  a double newline: the second cut shortens it further.
\<close>

theorem sanitize_marker_counterexample:
  "str_contains (str ''Human:'') (str ''a\<newline>\<newline>b Human: c'')
   \<and> sanitize (str ''a\<newline>\<newline>b Human: c'')
       \<noteq> Inr (str_strip (text_preceding (str ''Human:'') (str ''a\<newline>\<newline>b Human: c'')))"
  by (simp add: sanitize_normal_form eval_str)

text \<open>
  Claim C3, amended. When the marker \<^verbatim>\<open>Human:\<close> first occurs at index \<open>i\<close> of the raw
  text, the sanitized output leaves out everything from there on: it is the trimmed text
  that precedes the marker when this holds no double newline, and otherwise what precedes
  the first double newline of it, trimmed.
\<close>

theorem sanitize_cuts_at_marker:
  assumes "str_find (str ''Human:'') raw = Some i"
  shows "sanitize raw =
           Inr (let before = str_strip (take i raw)
                in if str_contains (str ''\<newline>\<newline>'') before
                   then str_strip (text_preceding (str ''\<newline>\<newline>'') before)
                   else before)"
proof -
  define before where "before = str_strip (take i raw)"
  have "str_strip (text_preceding (str ''\<newline>\<newline>'') before) = before"
    if "\<not> str_contains (str ''\<newline>\<newline>'') before"
    using that by (simp add: text_preceding_absent before_def strip_idem)
  then show ?thesis
    unfolding sanitize_at_marker[OF assms] before_def[symmetric] by (simp add: Let_def)
qed

theorem sanitize_cuts_at_marker_witness:
  "str_find (str ''Human:'') (str ''Fine, thanks. Human: and you?'') = Some 14
   \<and> sanitize (str ''Fine, thanks. Human: and you?'') = Inr (str ''Fine, thanks.'')"
  using sanitize_cuts_at_marker[of "str ''Fine, thanks. Human: and you?''" 14]
  by (simp add: eval_str)

text \<open>
  Claim C4, as stated: when the raw text holds a double newline and no marker before it,
  the sanitized output is the text that precedes the first double newline, trimmed only at
  the end. It is not when only whitespace precedes that double newline: line 44 (line 103)
  trims the raw text first, and the double newline goes with the leading whitespace.
\<close>

theorem sanitize_blank_line_counterexample:
  "str_find (str ''\<newline>\<newline>'') (str ''\<newline>\<newline>hello'') = Some 0
   \<and> \<not> str_contains (str ''Human:'') (take 0 (str ''\<newline>\<newline>hello''))
   \<and> sanitize (str ''\<newline>\<newline>hello'') = Inr (str ''hello'')
   \<and> sanitize (str ''\<newline>\<newline>hello'')
       \<noteq> Inr (str_strip (take 0 (str ''\<newline>\<newline>hello'')))"
  by (simp add: sanitize_normal_form eval_str)

text \<open>
  Claim C4, amended. Let the first double newline of the raw text be at index \<open>i\<close>, with no
  marker \<^verbatim>\<open>Human:\<close> in the text before it. When that text has a character that is no
  whitespace, the sanitized output stops before the double newline: it is that text,
  trimmed. When that text is whitespace only, the first trim removes it together with the
  double newline, and the output is the sanitized rest of the raw text.
\<close>

theorem sanitize_cuts_at_blank_line:
  assumes "str_find (str ''\<newline>\<newline>'') raw = Some i"
    and "\<not> str_contains (str ''Human:'') (take i raw)"
  shows "sanitize raw =
           (if str_strip (take i raw) \<noteq> [] then Inr (str_strip (take i raw))
            else sanitize (drop (i + 2) raw))"
  using sanitize_at_blank_line[OF assms] sanitize_after_leading_blank_line[OF assms(1)] by simp

theorem sanitize_cuts_at_blank_line_witness:
  "str_find (str ''\<newline>\<newline>'') (str ''Paris.\<newline>\<newline>Human: thanks'') = Some 6
   \<and> \<not> str_contains (str ''Human:'') (take 6 (str ''Paris.\<newline>\<newline>Human: thanks''))
   \<and> sanitize (str ''Paris.\<newline>\<newline>Human: thanks'') = Inr (str ''Paris.'')"
  using sanitize_cuts_at_blank_line[of "str ''Paris.\<newline>\<newline>Human: thanks''" 6]
  by (simp add: eval_str)

text \<open>
  Claim C5. Whatever the raw generated text, and so whenever it holds both the marker
  \<^verbatim>\<open>Human:\<close> and a double newline, in either order, the sanitizer cuts at the marker
  first and then cuts the result of that cut at its first double newline: its output is
  the trimmed text, truncated to what precedes the first marker, then truncated to what
  precedes the first double newline of that, and trimmed. The sanitizer never raises.
\<close>

theorem sanitize_marker_then_break:
  "sanitize raw =
     Inr (str_strip
            (text_preceding (str ''\<newline>\<newline>'')
               (text_preceding (str ''Human:'') (str_strip raw))))"
  by (rule sanitize_normal_form)

section \<open>Facts about the interactive loop\<close>

lemma py_input_Cons:
  "py_input (Line s # rest) = (Inr s, rest)" "py_input (Raises e # rest) = (Inl e, rest)"
  by simp_all

lemma interactive_loop_Break:
  "read_command U h (fst (py_input stdin)) = Break evs \<Longrightarrow>
   interactive_loop U llm sp k h stdin = (Inr (), Input You_prompt # evs)"
  by (subst interactive_loop.simps) simp

lemma interactive_loop_Continue:
  "read_command U h (fst (py_input stdin)) = Continue h' evs \<Longrightarrow>
   interactive_loop U llm sp k h stdin
   = emit (Input You_prompt # evs) (interactive_loop U llm sp k h' (snd (py_input stdin)))"
  by (subst interactive_loop.simps) simp

lemma interactive_loop_Reraise:
  "read_command U h (fst (py_input stdin)) = Reraise e \<Longrightarrow>
   interactive_loop U llm sp k h stdin = (Inl e, [Input You_prompt])"
  by (subst interactive_loop.simps) simp

lemma str_lower_ascii: "list_all (\<lambda>c. c < 0x80) s \<Longrightarrow> str_lower U s = map ascii_lower s"
  by (simp add: str_lower_def)

lemma capitalization_facts:
  assumes "\<forall>c\<in>set w. lower_letter c" "u \<in> set (capitalizations w)"
  shows "list_all (\<lambda>c. c < 0x80) u \<and> map ascii_lower u = w \<and> (\<forall>c\<in>set u. \<not> isspace c)"
  using assms
proof (induction w arbitrary: u)
  case Nil
  then show ?case by simp
next
  case (Cons c w)
  from Cons.prems(2) obtain v where v: "v \<in> set (capitalizations w)"
    and u: "u = c # v \<or> u = ascii_upper c # v" by auto
  have c: "lower_letter c" using Cons.prems(1) by simp
  have rest: "list_all (\<lambda>c. c < 0x80) v \<and> map ascii_lower v = w \<and> (\<forall>c\<in>set v. \<not> isspace c)"
    using Cons.IH[OF _ v] Cons.prems(1) by simp
  have "c < 0x80 \<and> ascii_lower c = c \<and> \<not> isspace c"
    using c by (auto simp: lower_letter_def ascii_lower_def isspace_def)
  moreover have "ascii_upper c < 0x80 \<and> ascii_lower (ascii_upper c) = c \<and> \<not> isspace (ascii_upper c)"
    using c by (auto simp: lower_letter_def ascii_lower_def ascii_upper_def isspace_def)
  ultimately show ?case using u rest by auto
qed

lemma no_space_strip: "\<forall>c\<in>set u. \<not> isspace c \<Longrightarrow> str_strip u = u"
proof (rule strip_id)
  assume a: "\<forall>c\<in>set u. \<not> isspace c"
  show "u = [] \<or> \<not> isspace (hd u)" using a by (cases u) auto
  show "u = [] \<or> \<not> isspace (last u)" using a by (cases "u = []") auto
qed

lemma capitalization_command:
  assumes "\<forall>c\<in>set w. lower_letter c" "u \<in> set (capitalizations w)"
  shows "str_strip u = u \<and> str_lower U u = w"
  using capitalization_facts[OF assms] by (simp add: no_space_strip str_lower_def)

lemma command_letters:
  "\<forall>c\<in>set (str ''quit''). lower_letter c" "\<forall>c\<in>set (str ''exit''). lower_letter c"
  "\<forall>c\<in>set (str ''q''). lower_letter c" "\<forall>c\<in>set (str ''clear''). lower_letter c"
  by (simp_all add: str_def lower_letter_def)

section \<open>Claims about the interactive loop\<close>

text \<open>
  Claim C8. In the interactive loop, whatever the history and the rest of the input: the
  lines \<^verbatim>\<open>quit\<close>, \<^verbatim>\<open>exit\<close> and \<^verbatim>\<open>q\<close> end the loop, which returns after its farewell;
  the line \<^verbatim>\<open>clear\<close> empties the history and the loop goes on with the rest of the input;
  an empty line changes nothing and the loop asks again; the end of the input and an
  interrupt at the prompt end the loop, which returns after its farewell and raises
  nothing.
\<close>

theorem interactive_commands:
  "interactive_loop U llm sp k h (Line (str ''quit'') # rest)
     = (Inr (), [Input You_prompt, Print Goodbye])
   \<and> interactive_loop U llm sp k h (Line (str ''exit'') # rest)
     = (Inr (), [Input You_prompt, Print Goodbye])
   \<and> interactive_loop U llm sp k h (Line (str ''q'') # rest)
     = (Inr (), [Input You_prompt, Print Goodbye])
   \<and> interactive_loop U llm sp k h (Line (str ''clear'') # rest)
     = emit [Input You_prompt, Print Conversation_cleared] (interactive_loop U llm sp k [] rest)
   \<and> interactive_loop U llm sp k h (Line [] # rest)
     = emit [Input You_prompt] (interactive_loop U llm sp k h rest)
   \<and> interactive_loop U llm sp k h (Raises EOFError # rest)
     = (Inr (), [Input You_prompt, Print Goodbye_after_newline])
   \<and> interactive_loop U llm sp k h (Raises KeyboardInterrupt # rest)
     = (Inr (), [Input You_prompt, Print Goodbye_after_newline])
   \<and> interactive_loop U llm sp k h []
     = (Inr (), [Input You_prompt, Print Goodbye_after_newline])"
proof -
  have quit: "read_command U h (fst (py_input (Line (str ''quit'') # rest))) = Break [Print Goodbye]"
    by (simp add: read_command_def str_lower_def ascii_lower_def eval_str)
  have exit: "read_command U h (fst (py_input (Line (str ''exit'') # rest))) = Break [Print Goodbye]"
    by (simp add: read_command_def str_lower_def ascii_lower_def eval_str)
  have q: "read_command U h (fst (py_input (Line (str ''q'') # rest))) = Break [Print Goodbye]"
    by (simp add: read_command_def str_lower_def ascii_lower_def eval_str)
  have clear: "read_command U h (fst (py_input (Line (str ''clear'') # rest)))
               = Continue [] [Print Conversation_cleared]"
    by (simp add: read_command_def str_lower_def ascii_lower_def eval_str)
  have empty: "read_command U h (fst (py_input (Line [] # rest))) = Continue h []"
    by (simp add: read_command_def str_lower_def ascii_lower_def eval_str)
  have eof: "read_command U h (fst (py_input (Raises EOFError # rest)))
             = Break [Print Goodbye_after_newline]"
    by (simp add: read_command_def)
  have int: "read_command U h (fst (py_input (Raises KeyboardInterrupt # rest)))
             = Break [Print Goodbye_after_newline]"
    by (simp add: read_command_def)
  have nil: "read_command U h (fst (py_input [])) = Break [Print Goodbye_after_newline]"
    by (simp add: read_command_def)
  show ?thesis
    using interactive_loop_Break[OF quit] interactive_loop_Break[OF exit]
      interactive_loop_Break[OF q] interactive_loop_Continue[OF clear]
      interactive_loop_Continue[OF empty] interactive_loop_Break[OF eof]
      interactive_loop_Break[OF int] interactive_loop_Break[OF nil]
    by simp
qed

text \<open>
  Claim C10. In the interactive loop the commands are recognized in any capitalization:
  every way of writing \<^verbatim>\<open>quit\<close>, \<^verbatim>\<open>exit\<close> or \<^verbatim>\<open>q\<close> in upper and lower case ends the
  loop, and every way of writing \<^verbatim>\<open>clear\<close> empties the history and lets the loop go on;
  none of them becomes a turn of the conversation.
\<close>

theorem commands_ignore_case:
  "(u \<in> set (capitalizations (str ''quit'')) \<union> set (capitalizations (str ''exit''))
        \<union> set (capitalizations (str ''q''))
    \<longrightarrow> interactive_loop U llm sp k h (Line u # rest) = (Inr (), [Input You_prompt, Print Goodbye]))
   \<and> (u \<in> set (capitalizations (str ''clear''))
    \<longrightarrow> interactive_loop U llm sp k h (Line u # rest)
        = emit [Input You_prompt, Print Conversation_cleared]
            (interactive_loop U llm sp k [] rest))"
proof (intro conjI impI)
  assume "u \<in> set (capitalizations (str ''quit'')) \<union> set (capitalizations (str ''exit''))
        \<union> set (capitalizations (str ''q''))"
  then have "str_strip u = u \<and> str_lower U u \<in> {str ''quit'', str ''exit'', str ''q''}"
    using capitalization_command[OF command_letters(1), of u U]
      capitalization_command[OF command_letters(2), of u U]
      capitalization_command[OF command_letters(3), of u U] by auto
  then have "read_command U h (fst (py_input (Line u # rest))) = Break [Print Goodbye]"
    by (auto simp: read_command_def)
  from interactive_loop_Break[OF this]
  show "interactive_loop U llm sp k h (Line u # rest) = (Inr (), [Input You_prompt, Print Goodbye])" .
next
  assume "u \<in> set (capitalizations (str ''clear''))"
  then have "str_strip u = u \<and> str_lower U u = str ''clear''"
    using capitalization_command[OF command_letters(4), of u U] by simp
  then have "read_command U h (fst (py_input (Line u # rest)))
             = Continue [] [Print Conversation_cleared]"
    by (simp add: read_command_def str_def)
  from interactive_loop_Continue[OF this]
  show "interactive_loop U llm sp k h (Line u # rest)
        = emit [Input You_prompt, Print Conversation_cleared] (interactive_loop U llm sp k [] rest)"
    by simp
qed

theorem commands_ignore_case_witness:
  "str ''QUIT'' \<in> set (capitalizations (str ''quit'')) \<union> set (capitalizations (str ''exit''))
        \<union> set (capitalizations (str ''q''))
   \<and> interactive_loop (\<lambda>s. s) (\<lambda>k p sp. Inr [])
         \<lparr>temperature = 0.8, top_p = 0.95, max_tokens = 512, repetition_penalty = 1.2\<rparr>
         0 [] [Line (str ''QUIT'')]
       = (Inr (), [Input You_prompt, Print Goodbye])
   \<and> str ''Clear'' \<in> set (capitalizations (str ''clear''))
   \<and> interactive_loop (\<lambda>s. s) (\<lambda>k p sp. Inr [])
         \<lparr>temperature = 0.8, top_p = 0.95, max_tokens = 512, repetition_penalty = 1.2\<rparr>
         0 [str ''Human: hi'', str ''Assistant: yo''] [Line (str ''Clear'')]
       = emit [Input You_prompt, Print Conversation_cleared]
           (interactive_loop (\<lambda>s. s) (\<lambda>k p sp. Inr [])
              \<lparr>temperature = 0.8, top_p = 0.95, max_tokens = 512, repetition_penalty = 1.2\<rparr>
              0 [] [])"
  using commands_ignore_case[of "str ''QUIT''" "\<lambda>s. s" "\<lambda>k p sp. Inr []"
      "\<lparr>temperature = 0.8, top_p = 0.95, max_tokens = 512, repetition_penalty = 1.2\<rparr>"
      0 "[]" "[]"]
    commands_ignore_case[of "str ''Clear''" "\<lambda>s. s" "\<lambda>k p sp. Inr []"
      "\<lparr>temperature = 0.8, top_p = 0.95, max_tokens = 512, repetition_penalty = 1.2\<rparr>"
      0 "[str ''Human: hi'', str ''Assistant: yo'']" "[]"]
  by (simp add: str_def ascii_upper_def del: interactive_loop.simps)

section \<open>Facts about \<^verbatim>\<open>main\<close>\<close>

lemma select_model_events:
  "select_model stdin = ((r, evs), rest) \<Longrightarrow> list_all model_menu_event evs"
  by (cases stdin rule: py_input.cases)
     (auto simp: select_model_def models_def Let_def split: if_splits option.splits)




lemma invalid_choices:
  "str_strip [] = []" "str_strip (str ''9'') = str ''9''" "str_strip (str ''abc'') = str ''abc''"
  "str_strip (str ''2'') = str ''2''"
  "map_of models [] = None" "map_of models (str ''9'') = None" "map_of models (str ''abc'') = None"
  by (simp_all add: eval_str models_def)

section \<open>Claims about \<^verbatim>\<open>main\<close>\<close>


text \<open>
  Claim C6. When the construction of the model chosen in the menu raises an exception of
  class \<^verbatim>\<open>Exception\<close>, \<^verbatim>\<open>main\<close> prints the failure with the exception and two hints and
  returns. All it has done is: the events of the model menu, the four announcements, one
  construction of the model, and the three lines of the report. So the construction is
  not tried again, the mode is not asked for, and neither demo runs. (An exception outside
  class \<^verbatim>\<open>Exception\<close>, as an interrupt during loading, is not caught at line 172.)
\<close>

theorem load_failure_is_fatal:
  assumes "select_model stdin = ((Inr m, evs), rest)"
    and "LLM (path m) (max_len m) = Inl e"
    and "is_Exception e"
  shows "main U LLM stdin
         = (Inr (),
            evs @ [Print Loading_model, Print (Model_name (name m)), Print Note_v1_engine,
                   Print Note_stability, LLM_init (path m) (max_len m),
                   Print (Failed_to_load e), Print Hint_v1_engine, Print Hint_numa_fix])
         \<and> list_all model_menu_event evs"
  using assms select_model_events[OF assms(1)]
  by (simp add: main_def load_model_def Let_def)

theorem load_failure_is_fatal_witness:
  "select_model [Line (str ''2'')]
     = ((Inr \<lparr>name = str ''Qwen2.5-1.5B-Instruct'',
              path = str ''/home/sameer/git/LLMs/Qwen2.5-1.5B-Instruct'',
              description = str ''Qwen2.5-1.5B (1.5B params) - Better quality, moderate speed'',
              max_len = 2048\<rparr>,
         [Print Rule, Print Select_model]
         @ map (\<lambda>(key, model). Print (Model_option key (description model))) models
         @ [Print Rule, Input Model_choice_prompt]), [])
   \<and> is_Exception (Exception (str ''out of memory''))
   \<and> main (\<lambda>s. s) (\<lambda>model max_model_len. Inl (Exception (str ''out of memory'')))
        [Line (str ''2'')]
     = (Inr (),
        [Print Rule, Print Select_model]
        @ map (\<lambda>(key, model). Print (Model_option key (description model))) models
        @ [Print Rule, Input Model_choice_prompt,
           Print Loading_model, Print (Model_name (str ''Qwen2.5-1.5B-Instruct'')),
           Print Note_v1_engine, Print Note_stability,
           LLM_init (str ''/home/sameer/git/LLMs/Qwen2.5-1.5B-Instruct'') 2048,
           Print (Failed_to_load (Exception (str ''out of memory''))),
           Print Hint_v1_engine, Print Hint_numa_fix])"
proof -
  have sel: "select_model [Line (str ''2'')]
     = ((Inr \<lparr>name = str ''Qwen2.5-1.5B-Instruct'',
              path = str ''/home/sameer/git/LLMs/Qwen2.5-1.5B-Instruct'',
              description = str ''Qwen2.5-1.5B (1.5B params) - Better quality, moderate speed'',
              max_len = 2048\<rparr>,
         [Print Rule, Print Select_model]
         @ map (\<lambda>(key, model). Print (Model_option key (description model))) models
         @ [Print Rule, Input Model_choice_prompt]), [])"
    by (simp add: select_model_def Let_def invalid_choices)
       (simp add: models_def str_def)
  show ?thesis
    using sel load_failure_is_fatal[OF sel, of
        "\<lambda>model max_model_len. Inl (Exception (str ''out of memory''))"
        "Exception (str ''out of memory'')" "\<lambda>s. s"]
    by simp
qed

section \<open>Facts about the states of the loops\<close>

lemma alternate_append_human:
  "turns_alternate h \<Longrightarrow> even (length h) \<Longrightarrow> turns_alternate (append_human h u)"
  by (induction h rule: turns_alternate.induct) (simp_all add: append_human_def)

lemma alternate_append_assistant:
  "turns_alternate h \<Longrightarrow> odd (length h) \<Longrightarrow> turns_alternate (append_assistant h r)"
  by (induction h rule: turns_alternate.induct) (simp_all add: append_assistant_def)

lemma begin_turn_invariant:
  assumes "transcript_invariant (At_input h)" "begin_turn h u = (h', prompt)"
  shows "transcript_invariant (At_generate h' prompt)"
proof -
  from assms(2) have h': "h' = append_human h u" and p: "prompt = build_prompt h'"
    by (auto simp: begin_turn_def Let_def)
  have "turns_alternate h'" unfolding h' using assms(1) by (simp add: alternate_append_human)
  moreover have "odd (length h')" using assms(1) by (simp add: h' append_human_def)
  moreover have "prefix (str ''Human: '') (last h')" by (simp add: h' append_human_def)
  ultimately show ?thesis using p by simp
qed

lemma finish_turn_history:
  "finish_turn h generated = (Inr h', evs) \<Longrightarrow> \<exists>response. h' = append_assistant h response"
  by (auto simp: finish_turn_def split: sum.splits)

lemma finish_turn_invariant:
  assumes "transcript_invariant (At_generate h prompt)" "finish_turn h generated = (Inr h', evs)"
  shows "transcript_invariant (At_input h')"
proof -
  from finish_turn_history[OF assms(2)] obtain r where h': "h' = append_assistant h r" by blast
  have "turns_alternate h'" unfolding h' using assms(1) by (simp add: alternate_append_assistant)
  moreover have "even (length h')" using assms(1) by (simp add: h' append_assistant_def)
  ultimately show ?thesis by simp
qed

lemma read_command_Continue:
  "read_command U h entered = Continue h' evs \<Longrightarrow> h' = [] \<or> h' = h"
  by (auto simp: read_command_def Let_def split: sum.splits if_splits prod.splits)

lemma read_command_Ask:
  "read_command U h entered = Ask h' prompt \<Longrightarrow> \<exists>u. begin_turn h u = (h', prompt)"
  by (auto simp: read_command_def Let_def split: sum.splits if_splits prod.splits)

lemma interactive_reach_invariant:
  "interactive_reach U pt \<Longrightarrow> transcript_invariant pt"
proof (induction rule: interactive_reach.induct)
  case interactive_start
  show ?case by simp
next
  case (interactive_continue h entered h' evs)
  from read_command_Continue[OF interactive_continue.hyps(2)] interactive_continue.IH
  show ?case by auto
next
  case (interactive_ask h entered h' prompt)
  from read_command_Ask[OF interactive_ask.hyps(2)] obtain u
    where "begin_turn h u = (h', prompt)" by blast
  with interactive_ask.IH show ?case by (rule begin_turn_invariant)
next
  case (interactive_answer h prompt generated h' evs)
  from interactive_answer.IH interactive_answer.hyps(2) show ?case
    by (rule finish_turn_invariant)
qed

lemma canned_reach_invariant:
  "canned_reach pt rest \<Longrightarrow> transcript_invariant pt"
proof (induction rule: canned_reach.induct)
  case canned_start
  show ?case by simp
next
  case (canned_ask h user_input rest h' prompt)
  from canned_ask.IH canned_ask.hyps(2) show ?case by (rule begin_turn_invariant)
next
  case (canned_answer h prompt rest generated h' evs)
  from canned_answer.IH canned_answer.hyps(2) show ?case by (rule finish_turn_invariant)
qed

text \<open>The prompts that a run of a loop sends are those of its reachable states.\<close>

lemma interactive_loop_prompts:
  assumes "interactive_reach U (At_input h)"
    and "Generate prompt sp' \<in> set (snd (interactive_loop U llm sp k h stdin))"
  shows "\<exists>h'. interactive_reach U (At_generate h' prompt)"
  using assms
proof (induction U llm sp k h stdin rule: interactive_loop.induct)
  case (1 U llm sp k h stdin)
  show ?case
  proof (cases "read_command U h (fst (py_input stdin))")
    case (Break evs)
    then have "interactive_loop U llm sp k h stdin = (Inr (), Input You_prompt # evs)"
      by (subst interactive_loop.simps) simp
    moreover have "evs = [Print Goodbye_after_newline] \<or> evs = [Print Goodbye]"
      using Break by (auto simp: read_command_def Let_def split: sum.splits if_splits prod.splits)
    ultimately show ?thesis using "1.prems"(2) by auto
  next
    case (Reraise e)
    then have "interactive_loop U llm sp k h stdin = (Inl e, [Input You_prompt])"
      by (subst interactive_loop.simps) simp
    then show ?thesis using "1.prems"(2) by simp
  next
    case (Continue h' evs)
    then have eq: "interactive_loop U llm sp k h stdin
      = emit (Input You_prompt # evs) (interactive_loop U llm sp k h' (snd (py_input stdin)))"
      by (subst interactive_loop.simps) simp
    have evs: "evs = [Print Conversation_cleared] \<or> evs = []"
      using Continue by (auto simp: read_command_def Let_def split: sum.splits if_splits prod.splits)
    have r: "interactive_reach U (At_input h')"
      using "1.prems"(1) Continue by (rule interactive_continue)
    have "Generate prompt sp' \<in> set (snd (interactive_loop U llm sp k h' (snd (py_input stdin))))"
      using "1.prems"(2) evs unfolding eq by (auto simp: emit_def)
    with "1.IH"(1)[OF Continue r] show ?thesis .
  next
    case (Ask h1 p)
    have r1: "interactive_reach U (At_generate h1 p)"
      using "1.prems"(1) Ask by (rule interactive_ask)
    obtain res evs where ft: "finish_turn h1 (llm k p sp) = (res, evs)"
      by (cases "finish_turn h1 (llm k p sp)")
    have evs: "\<forall>ev\<in>set evs. \<forall>q s. ev \<noteq> Generate q s"
      using ft by (auto simp: finish_turn_def split: sum.splits)
    show ?thesis
    proof (cases res)
      case (Inl e)
      then have "interactive_loop U llm sp k h stdin
        = (Inl e, [Input You_prompt, Print Thinking, Generate p sp] @ evs)"
        using Ask ft by (subst interactive_loop.simps) simp
      then have "prompt = p" using "1.prems"(2) evs by auto
      with r1 show ?thesis by blast
    next
      case (Inr h2)
      then have eq: "interactive_loop U llm sp k h stdin
        = emit ([Input You_prompt, Print Thinking, Generate p sp] @ evs)
            (interactive_loop U llm sp (Suc k) h2 (snd (py_input stdin)))"
        using Ask ft by (subst interactive_loop.simps) simp
      have r2: "interactive_reach U (At_input h2)"
        using r1 ft Inr by (auto intro: interactive_answer)
      from "1.prems"(2) evs consider "prompt = p"
        | "Generate prompt sp' \<in> set (snd (interactive_loop U llm sp (Suc k) h2 (snd (py_input stdin))))"
        unfolding eq by (auto simp: emit_def)
      then show ?thesis
      proof cases
        case 1 with r1 show ?thesis by blast
      next
        case 2
        from "1.IH"(2)[OF Ask _ _ r2 2] ft Inr show ?thesis by auto
      qed
    qed
  qed
qed

lemma finish_turn_no_generate:
  "finish_turn h generated = (res, evs) \<Longrightarrow> Generate q s \<notin> set evs"
  by (auto simp: finish_turn_def split: sum.splits)

lemma canned_loop_prompts:
  assumes "canned_reach (At_input h) inputs"
    and "Generate prompt sp' \<in> set (snd (canned_loop llm sp k h inputs))"
  shows "\<exists>h' rest. canned_reach (At_generate h' prompt) rest"
  using assms
proof (induction inputs arbitrary: h k rule: list.induct)
  case Nil
  then show ?case by simp
next
  case (Cons u rest)
  obtain h1 p where bt: "begin_turn h u = (h1, p)" by (cases "begin_turn h u")
  have r1: "canned_reach (At_generate h1 p) rest"
    using Cons.prems(1) bt by (rule canned_ask)
  obtain res evs where ft: "finish_turn h1 (llm k p sp) = (res, evs)"
    by (cases "finish_turn h1 (llm k p sp)")
  have evs: "Generate prompt sp' \<notin> set evs" using ft by (rule finish_turn_no_generate)
  show ?case
  proof (cases res)
    case (Inl e)
    then have "prompt = p" using Cons.prems(2) bt ft evs by auto
    with r1 show ?thesis by blast
  next
    case (Inr h2)
    have r2: "canned_reach (At_input h2) rest"
      using r1 ft Inr by (auto intro: canned_answer)
    from Cons.prems(2) bt ft Inr evs consider "prompt = p"
      | "Generate prompt sp' \<in> set (snd (canned_loop llm sp (Suc k) h2 rest))"
      by (auto simp: emit_def)
    then show ?thesis
    proof cases
      case 1 with r1 show ?thesis by blast
    next
      case 2 with Cons.IH[OF r2] show ?thesis .
    qed
  qed
qed

lemma run_interactive_demo_prompts:
  assumes "Generate prompt sp' \<in> set (snd (run_interactive_demo U llm sp stdin))"
  shows "\<exists>h. interactive_reach U (At_generate h prompt)"
proof -
  from assms have "Generate prompt sp' \<in> set (snd (interactive_loop U llm sp 0 [] stdin))"
    by (auto simp: run_interactive_demo_def emit_def)
  with interactive_start show ?thesis by (rule interactive_loop_prompts)
qed

lemma run_canned_demo_prompts:
  assumes "Generate prompt sp' \<in> set (snd (run_canned_demo llm sp))"
  shows "\<exists>h rest. canned_reach (At_generate h prompt) rest"
proof -
  from assms have "Generate prompt sp' \<in> set (snd (canned_loop llm sp 0 [] canned_inputs))"
    by (auto simp: run_canned_demo_def split: prod.splits sum.splits)
  with canned_start show ?thesis by (rule canned_loop_prompts)
qed

lemma canned_loop_first_prompt:
  "Generate (snd (begin_turn h u)) sp \<in> set (snd (canned_loop llm sp k h (u # rest)))"
  by (auto simp: emit_def split: prod.splits sum.splits)

lemma interactive_loop_first_prompt:
  assumes "read_command U h (fst (py_input stdin)) = Ask h1 p"
  shows "Generate p sp \<in> set (snd (interactive_loop U llm sp k h stdin))"
  using assms
  by (subst interactive_loop.simps)
     (auto simp: emit_def split: prod.splits sum.splits simp del: interactive_loop.simps)

text \<open>
  No prompt is built from an empty history: in both loops the append of the Human turn
  (line 35, line 94) comes directly before the expression that builds the prompt (line 36,
  line 95), also in the iteration that follows \<^verbatim>\<open>clear\<close>.
\<close>

lemma generate_history_nonempty:
  "interactive_reach U (At_generate h prompt) \<Longrightarrow> h \<noteq> []"
  "canned_reach (At_generate h prompt) rest \<Longrightarrow> h \<noteq> []"
proof -
  show "h \<noteq> []" if "interactive_reach U (At_generate h prompt)"
    using interactive_reach_invariant[OF that] by auto
  show "h \<noteq> []" if "canned_reach (At_generate h prompt) rest"
    using canned_reach_invariant[OF that] by auto
qed

section \<open>Claims about the history\<close>

text \<open>
  Claim C9. In every reachable state of the interactive loop and of the canned loop the
  turns of the history alternate, starting with a Human turn: before an input is taken the
  history has an even number of turns, and when \<^verbatim>\<open>generate\<close> is called the history ends
  with a Human turn and the prompt is the one built from it. Every prompt that a run of
  \<^verbatim>\<open>run_interactive_demo\<close> or \<^verbatim>\<open>run_canned_demo\<close> sends to \<^verbatim>\<open>generate\<close> is the prompt of
  such a reachable state.
\<close>

theorem transcript_invariant_holds:
  "(interactive_reach U pt \<longrightarrow> transcript_invariant pt)
   \<and> (canned_reach pt' rest \<longrightarrow> transcript_invariant pt')
   \<and> (Generate prompt sp' \<in> set (snd (run_interactive_demo U llm sp stdin))
      \<longrightarrow> (\<exists>h. interactive_reach U (At_generate h prompt)))
   \<and> (Generate prompt sp' \<in> set (snd (run_canned_demo llm sp))
      \<longrightarrow> (\<exists>h inputs. canned_reach (At_generate h prompt) inputs))"
  using interactive_reach_invariant canned_reach_invariant run_interactive_demo_prompts
    run_canned_demo_prompts by blast

theorem transcript_invariant_holds_witness:
  "interactive_reach (\<lambda>s. s) (At_generate [str ''Human: hi''] (str ''Human: hi\<newline>Assistant:''))
   \<and> transcript_invariant (At_generate [str ''Human: hi''] (str ''Human: hi\<newline>Assistant:''))
   \<and> canned_reach
        (At_generate [str ''Human: Hello, how are you?'']
           (str ''Human: Hello, how are you?\<newline>Assistant:''))
        [str ''What is the capital of France?'', str ''Tell me a short joke'']
   \<and> transcript_invariant
        (At_generate [str ''Human: Hello, how are you?'']
           (str ''Human: Hello, how are you?\<newline>Assistant:''))
   \<and> Generate (str ''Human: hi\<newline>Assistant:'')
        \<lparr>temperature = 0.8, top_p = 0.95, max_tokens = 512, repetition_penalty = 1.2\<rparr>
      \<in> set (snd (run_interactive_demo (\<lambda>s. s) (\<lambda>k prompt sp. Inr (str ''Hello!''))
                    \<lparr>temperature = 0.8, top_p = 0.95, max_tokens = 512,
                     repetition_penalty = 1.2\<rparr>
                    [Line (str ''hi'')]))
   \<and> (\<exists>h. interactive_reach (\<lambda>s. s) (At_generate h (str ''Human: hi\<newline>Assistant:'')))
   \<and> Generate (str ''Human: Hello, how are you?\<newline>Assistant:'')
        \<lparr>temperature = 0.8, top_p = 0.95, max_tokens = 512, repetition_penalty = 1.2\<rparr>
      \<in> set (snd (run_canned_demo (\<lambda>k prompt sp. Inr (str ''Hello!''))
                    \<lparr>temperature = 0.8, top_p = 0.95, max_tokens = 512,
                     repetition_penalty = 1.2\<rparr>))
   \<and> (\<exists>h inputs. canned_reach
          (At_generate h (str ''Human: Hello, how are you?\<newline>Assistant:'')) inputs)"
proof -
  let ?sp = "\<lparr>temperature = 0.8, top_p = 0.95, max_tokens = 512, repetition_penalty = 1.2\<rparr>"
  let ?llm = "\<lambda>(k :: nat) (prompt :: pystr) (sp :: sampling_params). Inr (str ''Hello!'') :: exn + pystr"
  have ask: "read_command (\<lambda>s. s) [] (fst (py_input [Line (str ''hi'')]))
             = Ask [str ''Human: hi''] (str ''Human: hi\<newline>Assistant:'')"
    by (simp add: read_command_def begin_turn_def append_human_def build_prompt_def
        str_lower_def ascii_lower_def eval_str)
  have r1: "interactive_reach (\<lambda>s. s)
              (At_generate [str ''Human: hi''] (str ''Human: hi\<newline>Assistant:''))"
    using interactive_start ask by (rule interactive_ask)
  have bt: "begin_turn [] (str ''Hello, how are you?'')
            = ([str ''Human: Hello, how are you?''],
               str ''Human: Hello, how are you?\<newline>Assistant:'')"
    by (simp add: begin_turn_def append_human_def build_prompt_def str_def)
  have "canned_reach (At_input [])
          (str ''Hello, how are you?''
           # [str ''What is the capital of France?'', str ''Tell me a short joke''])"
    using canned_start by (simp add: canned_inputs_def)
  then have r2: "canned_reach
        (At_generate [str ''Human: Hello, how are you?'']
           (str ''Human: Hello, how are you?\<newline>Assistant:''))
        [str ''What is the capital of France?'', str ''Tell me a short joke'']"
    using bt by (rule canned_ask)
  have g1: "Generate (str ''Human: hi\<newline>Assistant:'') ?sp
      \<in> set (snd (run_interactive_demo (\<lambda>s. s) ?llm ?sp [Line (str ''hi'')]))"
    using interactive_loop_first_prompt[OF ask, of ?sp ?llm 0]
    by (simp add: run_interactive_demo_def emit_def del: interactive_loop.simps)
  have g2: "Generate (str ''Human: Hello, how are you?\<newline>Assistant:'') ?sp
      \<in> set (snd (run_canned_demo ?llm ?sp))"
    using canned_loop_first_prompt[of "[]" "str ''Hello, how are you?''" ?sp ?llm 0
        "[str ''What is the capital of France?'', str ''Tell me a short joke'']"]
    unfolding bt
    by (auto simp: run_canned_demo_def canned_inputs_def split: prod.splits sum.splits
        simp del: canned_loop.simps)
  show ?thesis
    using r1 r2 g1 g2
      transcript_invariant_holds[of "\<lambda>s. s"
        "At_generate [str ''Human: hi''] (str ''Human: hi\<newline>Assistant:'')"
        "At_generate [str ''Human: Hello, how are you?'']
           (str ''Human: Hello, how are you?\<newline>Assistant:'')"
        "[str ''What is the capital of France?'', str ''Tell me a short joke'']"
        "str ''Human: hi\<newline>Assistant:''" ?sp ?llm ?sp "[Line (str ''hi'')]"]
      transcript_invariant_holds[of "\<lambda>s. s"
        "At_generate [str ''Human: hi''] (str ''Human: hi\<newline>Assistant:'')"
        "At_generate [str ''Human: Hello, how are you?'']
           (str ''Human: Hello, how are you?\<newline>Assistant:'')"
        "[str ''What is the capital of France?'', str ''Tell me a short joke'']"
        "str ''Human: Hello, how are you?\<newline>Assistant:''" ?sp ?llm ?sp "[]"]
    by blast
qed

end
